theory Spec2Isabelle
  imports Main "HOL-Library.Monad_Syntax"
begin

section \<open>Error codes and parser states\<close>

text \<open>
  Modelled from the spec: the enumeration \<open>error\<close> (error.hpp is not among the sources).
  The constructors are the codes of the spec's taxonomy; the BNF sentinel \<open>end\<close> is
  called \<open>error_end\<close>, since \<open>end\<close> is reserved.
\<close>

datatype error =
    need_more
  | error_end
  | bad_version
  | bad_field
  | bad_line_ending
  | bad_value
  | bad_content_length
  | bad_transfer_encoding
  | bad_chunk
  | bad_message
  | header_limit
  | body_limit
  | incomplete
  | not_found
  | out_of_range
  | invalid_argument

text \<open>
  An \<open>error_code\<close> is either the default-constructed code \<open>{}\<close> (\<open>None\<close>) or holds one
  \<open>error\<close>. The test \<open>if(ec)\<close> of the sources is \<open>ec \<noteq> None\<close>.
\<close>

type_synonym error_code = "error option"

text \<open>
  Modelled from the spec: the states of the parser (basic_parser.hpp is not among the
  sources; the sources name \<open>nothing_yet\<close>, \<open>start_line\<close>, \<open>fields\<close> and \<open>body\<close>). Below,
  \<open>fields\<close> is written \<open>state.fields\<close>.
\<close>

datatype state =
    nothing_yet
  | start_line
  | fields
  | body
  | chunk_header
  | chunk_body
  | chunk_trailer
  | complete
  | failed

section \<open>Bytes, character sets and reads\<close>

abbreviation CR :: char where "CR \<equiv> CHR 0x0D"
abbreviation LF :: char where "LF \<equiv> CHR 0x0A"
abbreviation SP :: char where "SP \<equiv> CHR 0x20"
abbreviation HTAB :: char where "HTAB \<equiv> CHR 0x09"

text \<open>
  Pointers into the parser's buffer are offsets from \<open>buffer_\<close>. A call returns \<open>None\<close>
  when it does not return normally in the source: a \<open>BOOST_ASSERT\<close> fails, or a byte
  outside the allocated array is read. \<open>rd buf i\<close> is the read \<open>buffer_[i]\<close>. The
  pointer \<open>last\<close> of the sources is written \<open>last'\<close>.
\<close>

definition rd :: "char list \<Rightarrow> nat \<Rightarrow> char option" where
  "rd buf i = (if i < length buf then Some (buf ! i) else None)"

text \<open>\<open>string_view(buffer_ + a, b - a)\<close>.\<close>

definition slice :: "char list \<Rightarrow> nat \<Rightarrow> nat \<Rightarrow> char list" where
  "slice buf a b = take (b - a) (drop a buf)"

text \<open>
  Modelled from the spec: the character sets of ctype.hpp (not among the sources).
  \<open>ws_set\<close> is SP and HTAB, \<open>tchar_set\<close> is the set written out in the comment of
  \<open>parse_field\<close>, \<open>field_vchar_set\<close> is the visible ASCII characters.
\<close>

definition is_digit :: "char \<Rightarrow> bool" where
  "is_digit c = (48 \<le> (of_char c :: nat) \<and> (of_char c :: nat) \<le> 57)"

definition is_alpha :: "char \<Rightarrow> bool" where
  "is_alpha c =
     ((65 \<le> (of_char c :: nat) \<and> (of_char c :: nat) \<le> 90) \<or>
      (97 \<le> (of_char c :: nat) \<and> (of_char c :: nat) \<le> 122))"

definition ws_contains :: "char \<Rightarrow> bool" where
  "ws_contains c = (c = SP \<or> c = HTAB)"

definition tchar_contains :: "char \<Rightarrow> bool" where
  "tchar_contains c =
     (c \<in> set ''!#$%&*+-.^_|~'' \<or> c = CHR 0x27 \<or> c = CHR 0x60 \<or> is_digit c \<or> is_alpha c)"

definition field_vchar_contains :: "char \<Rightarrow> bool" where
  "field_vchar_contains c = (33 \<le> (of_char c :: nat) \<and> (of_char c :: nat) \<le> 126)"

text \<open>
  Modelled from the spec: the set-skipping scanner \<open>skip(first, last)\<close> of a character
  set. It advances \<open>first\<close> while it differs from \<open>last\<close> and points at a member of the
  set. Started beyond \<open>last\<close> it runs until a byte outside the set, or off the array.
\<close>

function set_skip :: "(char \<Rightarrow> bool) \<Rightarrow> char list \<Rightarrow> nat \<Rightarrow> nat \<Rightarrow> nat option" where
  "set_skip contains buf first last' =
     (if first = last' then Some first
      else if length buf \<le> first then None
      else if contains (buf ! first) then set_skip contains buf (Suc first) last'
      else Some first)"
  by pat_completeness auto
termination
  by (relation "measure (\<lambda>(contains, buf, first, last'). length buf - first)") auto

declare set_skip.simps [simp del]

section \<open>The parser object\<close>

text \<open>
  The members of \<open>basic_parser\<close> that the sources use, without their trailing underscore.
  \<open>buffer\<close> is \<open>None\<close> for the null pointer and otherwise holds the \<open>capacity\<close> bytes of the
  array. \<open>version\<close> is \<open>None\<close> until \<open>parse_version\<close> assigns it: the constructor leaves it
  out of its initialiser list. \<open>f_bits\<close> is the member \<open>f_\<close>.
\<close>

record basic_parser =
  buffer :: "char list option"
  capacity :: nat
  committed :: nat
  parsed :: nat
  state :: state
  header_limit :: nat
  skip :: nat
  f_bits :: nat
  version :: "nat option"

definition basic_parser_init :: basic_parser where
  "basic_parser_init =
     \<lparr>buffer = None, capacity = 0, committed = 0, parsed = 0, state = nothing_yet,
      header_limit = 8192, skip = 0, f_bits = 0, version = None\<rparr>"

definition reset :: "basic_parser \<Rightarrow> basic_parser" where
  "reset p = p"

text \<open>
  \<open>new char[n]\<close> leaves the bytes of the array indeterminate; the model fills it with
  NUL, and takes the allocation to succeed.
\<close>

definition new_chars :: "nat \<Rightarrow> char list" where
  "new_chars n = replicate n (CHR 0x00)"

text \<open>
  \<open>std::size_t\<close> is taken to be 64 bits wide. Sizes are \<open>nat\<close> below \<open>2 ^ 64\<close>; the
  unsigned sum and difference wrap.
\<close>

definition size_add :: "nat \<Rightarrow> nat \<Rightarrow> nat" where
  "size_add a b = (a + b) mod 2 ^ 64"

definition size_sub :: "nat \<Rightarrow> nat \<Rightarrow> nat" where
  "size_sub a b = (if b \<le> a then a - b else a + 2 ^ 64 - b)"

text \<open>
  \<open>prepare\<close> returns the parser and the pair (offset of the region, size of the region).
  The \<open>memcpy\<close> of \<open>committed_\<close> bytes leaves the old array, or the new one, when
  \<open>committed_\<close> is larger than it.
\<close>

definition prepare :: "basic_parser \<Rightarrow> (basic_parser \<times> nat \<times> nat) option" where
  "prepare p =
     (case
        (case buffer p of
           None \<Rightarrow> Some (p\<lparr>buffer := Some (new_chars 4096), capacity := 4096\<rparr>)
         | Some buf \<Rightarrow>
             if capacity p \<le> committed p
             then (if length buf < committed p \<or> size_add (capacity p) 4096 < committed p
                   then None
                   else Some (p\<lparr>buffer := Some (take (committed p) buf @
                                     drop (committed p)
                                       (new_chars (size_add (capacity p) 4096))),
                                capacity := size_add (capacity p) 4096\<rparr>))
             else Some p)
      of None \<Rightarrow> None
       | Some p' \<Rightarrow> Some (p', committed p', size_sub (capacity p') (committed p')))"

text \<open>
  The caller's writes through the pointer that \<open>prepare\<close> returned: \<open>bs\<close> is stored at
  the start of the region. Writing more than the region holds is outside the array.
\<close>

definition store_prepared :: "char list \<Rightarrow> basic_parser \<Rightarrow> basic_parser option" where
  "store_prepared bs p =
     (case buffer p of
        None \<Rightarrow> None
      | Some buf \<Rightarrow>
          if committed p + length bs \<le> length buf
          then Some (p\<lparr>buffer := Some (take (committed p) buf @ bs @
                                         drop (committed p + length bs) buf)\<rparr>)
          else None)"

definition commit :: "nat \<Rightarrow> basic_parser \<Rightarrow> basic_parser option" where
  "commit n p =
     (if \<not> n > 0 then None
      else if \<not> n \<le> size_sub (capacity p) (committed p) then None
      else Some (p\<lparr>committed := size_add (committed p) n\<rparr>))"

definition commit_eof :: "basic_parser \<Rightarrow> basic_parser" where
  "commit_eof p = p"

section \<open>Version\<close>

text \<open>
  \<open>parse_version(first, last, ec)\<close> returns the parser, the new \<open>first\<close> and \<open>ec\<close>.
\<close>

definition parse_version ::
  "basic_parser \<Rightarrow> char list \<Rightarrow> nat \<Rightarrow> nat \<Rightarrow> (basic_parser \<times> nat \<times> error_code) option" where
  "parse_version p buf first last' =
     (let it = first in
      if int last' - int it < 8 then Some (p, first, Some need_more)
      else if length buf < it + 7 then None
      else if slice buf it (it + 7) \<noteq> ''HTTP/1.'' then Some (p, first, Some bad_version)
      else do {
        c \<leftarrow> rd buf (it + 7);
        if c = CHR ''0'' then Some (p\<lparr>version := Some 0\<rparr>, it + 8, None)
        else if c = CHR ''1'' then Some (p\<lparr>version := Some 1\<rparr>, it + 8, None)
        else Some (p, first, Some bad_version)
      })"

section \<open>Fields\<close>

text \<open>
  Modelled from the spec: \<open>string_to_field\<close> and the enumeration \<open>field\<close> (field.hpp is
  not among the sources). The lookup is ASCII case-insensitive; every id that
  \<open>parse_field\<close> does not dispatch on is \<open>unknown\<close> here.
\<close>

datatype field =
    connection
  | content_length
  | proxy_connection
  | transfer_encoding
  | upgrade
  | unknown

definition ascii_lower :: "char \<Rightarrow> char" where
  "ascii_lower c =
     (if 65 \<le> (of_char c :: nat) \<and> (of_char c :: nat) \<le> 90
      then char_of ((of_char c :: nat) + 32) else c)"

definition iequals :: "string \<Rightarrow> string \<Rightarrow> bool" where
  "iequals a b = (map ascii_lower a = map ascii_lower b)"

definition string_to_field :: "string \<Rightarrow> field" where
  "string_to_field k =
     (if iequals k ''Connection'' then connection
      else if iequals k ''Content-Length'' then content_length
      else if iequals k ''Proxy-Connection'' then proxy_connection
      else if iequals k ''Transfer-Encoding'' then transfer_encoding
      else if iequals k ''Upgrade'' then upgrade
      else unknown)"

text \<open>The semantic handlers: each takes the value and \<open>ec\<close>, and has an empty body.\<close>

definition do_connection :: "string \<Rightarrow> error_code \<Rightarrow> error_code" where
  "do_connection v ec = ec"

definition do_content_length :: "string \<Rightarrow> error_code \<Rightarrow> error_code" where
  "do_content_length v ec = ec"

definition do_transfer_encoding :: "string \<Rightarrow> error_code \<Rightarrow> error_code" where
  "do_transfer_encoding v ec = ec"

definition do_upgrade :: "string \<Rightarrow> error_code \<Rightarrow> error_code" where
  "do_upgrade v ec = ec"

text \<open>
  How one pass of the value loop of \<open>parse_field\<close> leaves: with an error, or at the end
  of the line with the new \<open>in\<close>, \<open>v0\<close> and \<open>v1\<close>. The pointer \<open>in\<close> is written \<open>it\<close>, the
  reduced \<open>end\<close> is written \<open>end'\<close>.
\<close>

datatype value_exit = Stop error | Line_end nat nat nat

text \<open>
  The first block of the loop body (``check field-content first''): it leaves the
  loop, or goes on to the block ``obs-fold / CRLF'' with \<open>in\<close> and \<open>v0\<close>.
\<close>

datatype content_step = Exit value_exit | Fall nat "nat option"

definition field_content ::
  "char list \<Rightarrow> nat \<Rightarrow> nat \<Rightarrow> nat option \<Rightarrow> content_step option" where
  "field_content buf end' it v0 =
     do {
       c \<leftarrow> rd buf it;
       if field_vchar_contains c then
         do {
           let v0' = (case v0 of None \<Rightarrow> it | Some v \<Rightarrow> v);
           it1 \<leftarrow> set_skip field_vchar_contains buf (it + 1) end';
           if it1 = end' then Some (Exit (Stop need_more))
           else
             do {
               c1 \<leftarrow> rd buf it1;
               if ws_contains c1 then
                 do {
                   it2 \<leftarrow> set_skip ws_contains buf it1 end';
                   c2 \<leftarrow> rd buf it2;
                   if c2 = CR then
                     do {
                       c3 \<leftarrow> rd buf (it2 + 1);
                       if c3 \<noteq> LF then Some (Exit (Stop bad_line_ending))
                       else
                         do {
                           c4 \<leftarrow> rd buf (it2 + 2);
                           if ws_contains c4 then Some (Exit (Stop bad_value))
                           else Some (Exit (Line_end (it2 + 2) v0' it2))
                         }
                     }
                   else Some (Fall it2 (Some v0'))
                 }
               else Some (Fall it1 (Some v0'))
             }
         }
       else Some (Fall it v0)
     }"

text \<open>The loop \<open>for(;;)\<close> over \<open>*( field-content / obs-fold )\<close>; it returns the buffer too.\<close>

function field_value ::
  "char list \<Rightarrow> nat \<Rightarrow> nat \<Rightarrow> nat option \<Rightarrow> (char list \<times> value_exit) option" where
  "field_value buf end' it v0 =
     (if it = end' then Some (buf, Stop need_more)
      else
        case field_content buf end' it v0 of
          None \<Rightarrow> None
        | Some (Exit x) \<Rightarrow> Some (buf, x)
        | Some (Fall it1 v0') \<Rightarrow>
            (case rd buf it1 of
               None \<Rightarrow> None
             | Some c \<Rightarrow>
                 if c = CR then
                   (case rd buf (it1 + 1) of
                      None \<Rightarrow> None
                    | Some c1 \<Rightarrow>
                        if c1 \<noteq> LF then Some (buf, Stop bad_line_ending)
                        else
                          (case rd buf (it1 + 2) of
                             None \<Rightarrow> None
                           | Some c2 \<Rightarrow>
                               if \<not> ws_contains c2
                               then Some (buf, Line_end (it1 + 2)
                                            (case v0' of None \<Rightarrow> it1 | Some v \<Rightarrow> v) it1)
                               else
                                 (case set_skip ws_contains
                                         (buf[it1 := SP, it1 + 1 := SP, it1 + 2 := SP])
                                         (it1 + 3) end' of
                                    None \<Rightarrow> None
                                  | Some it2 \<Rightarrow>
                                      field_value
                                        (buf[it1 := SP, it1 + 1 := SP, it1 + 2 := SP])
                                        end' it2 v0')))
                 else Some (buf, Stop bad_field)))"
  by pat_completeness auto

lemma set_skip_ge: "set_skip contains buf first last' = Some j \<Longrightarrow> first \<le> j"
proof (induction contains buf first last' rule: set_skip.induct)
  case (1 contains buf first last')
  then show ?case
    by (subst (asm) (2) set_skip.simps) (auto split: if_splits dest: Suc_leD)
qed

lemma rd_Some: "rd buf i = Some c \<Longrightarrow> i < length buf"
  by (simp add: rd_def split: if_splits)

lemma field_content_Fall_ge:
  "field_content buf end' it v0 = Some (Fall it1 v0') \<Longrightarrow> it \<le> it1"
  unfolding field_content_def
  by (auto simp: Let_def split: bind_splits if_splits dest!: set_skip_ge)

lemma field_value_measure:
  assumes "field_content buf end' it v0 = Some (Fall it1 v0')"
    and "rd buf (it1 + 2) = Some c2"
    and "set_skip ws_contains buf' (it1 + 3) end' = Some it2"
  shows "length buf - it2 < length buf - it"
proof -
  have "it \<le> it1" using assms(1) by (rule field_content_Fall_ge)
  moreover have "it1 + 2 < length buf" using assms(2) by (rule rd_Some)
  moreover have "it1 + 3 \<le> it2" using assms(3) by (rule set_skip_ge)
  ultimately show ?thesis by simp
qed

termination field_value
  by (relation "measure (\<lambda>(buf, end', it, v0). length buf - it)")
     (auto intro: field_value_measure)

declare field_value.simps [simp del]

text \<open>The \<open>switch(f)\<close> at the end of \<open>parse_field\<close>.\<close>

definition field_dispatch :: "field \<Rightarrow> string \<Rightarrow> error_code \<Rightarrow> error_code" where
  "field_dispatch fld v ec =
     (case fld of
        connection \<Rightarrow> do_connection v ec
      | proxy_connection \<Rightarrow> do_connection v ec
      | content_length \<Rightarrow> do_content_length v ec
      | transfer_encoding \<Rightarrow> do_transfer_encoding v ec
      | upgrade \<Rightarrow> do_upgrade v ec
      | unknown \<Rightarrow> ec)"

text \<open>
  \<open>parse_field(start, end, ec)\<close>, entered with \<open>ec\<close> clear. It returns the buffer (which
  it rewrites in place), the returned pointer, \<open>ec\<close>, and the name \<open>k\<close> and value \<open>v\<close> that
  it hands to the semantic handlers when the line is complete. The parameter \<open>end\<close> is
  written \<open>end0\<close>.
\<close>

definition parse_field ::
  "char list \<Rightarrow> nat \<Rightarrow> nat \<Rightarrow>
     (char list \<times> nat \<times> error_code \<times> (string \<times> string) option) option" where
  "parse_field buf start end0 =
     (if \<not> start \<noteq> end0 then None
      else if int end0 - int start < 3 then Some (buf, start, Some need_more, None)
      else
        let end' = end0 - 3 in
        do {
          it \<leftarrow> set_skip tchar_contains buf start end';
          if it = end' then Some (buf, start, Some need_more, None)
          else
            do {
              c \<leftarrow> rd buf it;
              if c \<noteq> CHR '':'' then Some (buf, start, Some bad_field, None)
              else if it = start then Some (buf, start, Some bad_field, None)
              else
                do {
                  let k1 = it;
                  it1 \<leftarrow> set_skip ws_contains buf (it + 1) end';
                  r \<leftarrow> field_value buf end' it1 None;
                  case r of
                    (buf', Stop e) \<Rightarrow> Some (buf', start, Some e, None)
                  | (buf', Line_end it2 v0 v1) \<Rightarrow>
                      let k = slice buf' start k1;
                          v = slice buf' v0 v1
                      in Some (buf', it2, field_dispatch (string_to_field k) v None,
                               Some (k, v))
                }
            }
        })"

lemma field_content_Line_end:
  "field_content buf end' it v0 = Some (Exit (Line_end it2 a b)) \<Longrightarrow> it < it2 \<and> it2 < length buf"
  unfolding field_content_def
  by (auto simp: Let_def split: bind_splits if_splits dest!: set_skip_ge rd_Some)

lemma field_value_Line_end:
  "field_value buf end' it v0 = Some (buf', Line_end it2 a b) \<Longrightarrow>
     it < it2 \<and> it2 < length buf \<and> length buf' = length buf"
proof (induction buf end' it v0 rule: field_value.induct)
  case (1 buf end' it v0)
  show ?case
  proof (cases "it = end'")
    case True
    with "1.prems" show ?thesis by (simp add: field_value.simps)
  next
    case False
    show ?thesis
    proof (cases "field_content buf end' it v0")
      case None
      with False "1.prems" show ?thesis by (simp add: field_value.simps)
    next
      case (Some st)
      show ?thesis
      proof (cases st)
        case (Exit x)
        with Some False "1.prems" have "x = Line_end it2 a b" "buf' = buf"
          by (simp_all add: field_value.simps)
        with Some Exit show ?thesis by (auto dest: field_content_Line_end)
      next
        case (Fall it1 v0')
        have ge: "it \<le> it1" using Some Fall by (auto dest: field_content_Fall_ge)
        from "1.prems" False Some Fall
        obtain c where c: "rd buf it1 = Some c"
          by (subst (asm) field_value.simps) (auto split: option.splits)
        show ?thesis
        proof (cases "c = CR")
          case notcr: False
          with "1.prems" False Some Fall c show ?thesis
            by (subst (asm) field_value.simps) simp
        next
          case cr: True
          from "1.prems" False Some Fall c cr
          obtain c1 where c1: "rd buf (it1 + 1) = Some c1"
            by (subst (asm) field_value.simps) (auto split: option.splits)
          show ?thesis
          proof (cases "c1 = LF")
            case False
            with "1.prems" \<open>it \<noteq> end'\<close> Some Fall c cr c1 show ?thesis
              by (subst (asm) field_value.simps) simp
          next
            case lf: True
            from "1.prems" False Some Fall c cr c1 lf
            obtain c2 where c2: "rd buf (it1 + 2) = Some c2"
              by (subst (asm) field_value.simps) (auto split: option.splits)
            have lt: "it1 + 2 < length buf" using c2 by (rule rd_Some)
            show ?thesis
            proof (cases "ws_contains c2")
              case nws: False
              with "1.prems" False Some Fall c cr c1 lf c2 have "it2 = it1 + 2" "buf' = buf"
                by (subst (asm) field_value.simps, simp)+
              with ge lt show ?thesis by simp
            next
              case ws: True
              let ?b = "buf[it1 := SP, it1 + 1 := SP, it1 + 2 := SP]"
              from "1.prems" False Some Fall c cr c1 lf c2 ws
              obtain it3 where it3: "set_skip ws_contains ?b (it1 + 3) end' = Some it3"
                and rec: "field_value ?b end' it3 v0' = Some (buf', Line_end it2 a b)"
                by (subst (asm) field_value.simps) (auto split: option.splits)
              have "it3 < it2 \<and> it2 < length ?b \<and> length buf' = length ?b"
                using "1.IH"[OF False Some Fall c cr c1 _ c2 _ it3 rec] lf ws by simp
              moreover have "it1 + 3 \<le> it3" using it3 by (rule set_skip_ge)
              ultimately show ?thesis using ge by simp
            qed
          qed
        qed
      qed
    qed
  qed
qed

lemma parse_field_progress:
  "parse_field buf start end0 = Some (buf', it, None, fld) \<Longrightarrow>
     start < it \<and> it < length buf \<and> length buf' = length buf"
  unfolding parse_field_def
  by (auto simp: Let_def split: bind_splits if_splits prod.splits value_exit.splits
      dest!: set_skip_ge field_value_Line_end)

text \<open>Induction over the passes of a run of the value loop that returns.\<close>

lemma field_value_run [consumes 1, case_names need_more exit bad_line_ending line_end fold bad_field]:
  assumes run: "field_value buf end' it v0 = Some r"
    and need: "\<And>buf end' it v0. it = end' \<Longrightarrow> P buf end' it v0 (buf, Stop need_more)"
    and exit: "\<And>buf end' it v0 x. it \<noteq> end' \<Longrightarrow> field_content buf end' it v0 = Some (Exit x) \<Longrightarrow>
        P buf end' it v0 (buf, x)"
    and ble: "\<And>buf end' it v0 it1 v0' c1. it \<noteq> end' \<Longrightarrow>
        field_content buf end' it v0 = Some (Fall it1 v0') \<Longrightarrow>
        rd buf it1 = Some CR \<Longrightarrow> rd buf (it1 + 1) = Some c1 \<Longrightarrow> c1 \<noteq> LF \<Longrightarrow>
        P buf end' it v0 (buf, Stop bad_line_ending)"
    and eol: "\<And>buf end' it v0 it1 v0' c2. it \<noteq> end' \<Longrightarrow>
        field_content buf end' it v0 = Some (Fall it1 v0') \<Longrightarrow>
        rd buf it1 = Some CR \<Longrightarrow> rd buf (it1 + 1) = Some LF \<Longrightarrow>
        rd buf (it1 + 2) = Some c2 \<Longrightarrow> \<not> ws_contains c2 \<Longrightarrow>
        P buf end' it v0 (buf, Line_end (it1 + 2) (case v0' of None \<Rightarrow> it1 | Some v \<Rightarrow> v) it1)"
    and fold: "\<And>buf end' it v0 it1 v0' c2 it2 r. it \<noteq> end' \<Longrightarrow>
        field_content buf end' it v0 = Some (Fall it1 v0') \<Longrightarrow>
        rd buf it1 = Some CR \<Longrightarrow> rd buf (it1 + 1) = Some LF \<Longrightarrow>
        rd buf (it1 + 2) = Some c2 \<Longrightarrow> ws_contains c2 \<Longrightarrow>
        set_skip ws_contains (buf[it1 := SP, it1 + 1 := SP, it1 + 2 := SP]) (it1 + 3) end' =
          Some it2 \<Longrightarrow>
        field_value (buf[it1 := SP, it1 + 1 := SP, it1 + 2 := SP]) end' it2 v0' = Some r \<Longrightarrow>
        P (buf[it1 := SP, it1 + 1 := SP, it1 + 2 := SP]) end' it2 v0' r \<Longrightarrow>
        P buf end' it v0 r"
    and bad: "\<And>buf end' it v0 it1 v0' c. it \<noteq> end' \<Longrightarrow>
        field_content buf end' it v0 = Some (Fall it1 v0') \<Longrightarrow>
        rd buf it1 = Some c \<Longrightarrow> c \<noteq> CR \<Longrightarrow>
        P buf end' it v0 (buf, Stop bad_field)"
  shows "P buf end' it v0 r"
  using run
proof (induction buf end' it v0 rule: field_value.induct)
  case (1 buf end' it v0)
  note run = "1.prems"
  show ?case
  proof (cases "it = end'")
    case True
    with run have "r = (buf, Stop need_more)" by (simp add: field_value.simps)
    with need [OF True] show ?thesis by simp
  next
    case ne: False
    from run ne obtain st where st: "field_content buf end' it v0 = Some st"
      by (subst (asm) field_value.simps) (auto split: option.splits)
    show ?thesis
    proof (cases st)
      case (Exit x)
      with st ne run have "r = (buf, x)"
        by (subst (asm) field_value.simps) simp
      with exit [OF ne] st Exit show ?thesis by simp
    next
      case (Fall it1 v0')
      note fc = st [unfolded Fall]
      from run ne fc obtain c where c: "rd buf it1 = Some c"
        by (subst (asm) field_value.simps) (auto split: option.splits)
      show ?thesis
      proof (cases "c = CR")
        case False
        with run ne fc c have "r = (buf, Stop bad_field)"
          by (subst (asm) field_value.simps) simp
        with bad [OF ne fc c False] show ?thesis by simp
      next
        case cr: True
        from run ne fc c cr obtain c1 where c1: "rd buf (it1 + 1) = Some c1"
          by (subst (asm) field_value.simps) (auto split: option.splits)
        show ?thesis
        proof (cases "c1 = LF")
          case False
          with run ne fc c cr c1 have "r = (buf, Stop bad_line_ending)"
            by (subst (asm) field_value.simps) simp
          with ble [OF ne fc c [unfolded cr] c1 False] show ?thesis by simp
        next
          case lf: True
          from run ne fc c cr c1 lf obtain c2 where c2: "rd buf (it1 + 2) = Some c2"
            by (subst (asm) field_value.simps) (auto split: option.splits)
          show ?thesis
          proof (cases "ws_contains c2")
            case False
            with run ne fc c cr c1 lf c2
            have "r = (buf, Line_end (it1 + 2) (case v0' of None \<Rightarrow> it1 | Some v \<Rightarrow> v) it1)"
              by (subst (asm) field_value.simps) simp
            with eol [OF ne fc c [unfolded cr] c1 [unfolded lf] c2 False] show ?thesis by simp
          next
            case ws: True
            let ?b = "buf[it1 := SP, it1 + 1 := SP, it1 + 2 := SP]"
            from run ne fc c cr c1 lf c2 ws
            obtain it2 where it2: "set_skip ws_contains ?b (it1 + 3) end' = Some it2"
              and rec: "field_value ?b end' it2 v0' = Some r"
              by (subst (asm) field_value.simps) (auto split: option.splits)
            have "P ?b end' it2 v0' r"
              using "1.IH" [OF ne st Fall c cr c1 _ c2 _ it2 rec] lf ws by simp
            with fold [OF ne fc c [unfolded cr] c1 [unfolded lf] c2 ws it2 rec]
            show ?thesis by simp
          qed
        qed
      qed
    qed
  qed
qed


section \<open>The field block\<close>

text \<open>
  \<open>parse_fields(first, last, ec)\<close> returns the buffer, the new \<open>first\<close> and \<open>ec\<close>. At the
  head of the loop \<open>in\<close> equals \<open>first\<close>.
\<close>

function parse_fields :: "char list \<Rightarrow> nat \<Rightarrow> nat \<Rightarrow> (char list \<times> nat \<times> error_code) option" where
  "parse_fields buf first last' =
     (if int last' - int first < 2 then Some (buf, first, Some need_more)
      else
        case rd buf first of
          None \<Rightarrow> None
        | Some c0 \<Rightarrow>
            if c0 = CR then
              (case rd buf (first + 1) of
                 None \<Rightarrow> None
               | Some c1 \<Rightarrow>
                   if c1 \<noteq> LF then Some (buf, first, Some bad_line_ending)
                   else Some (buf, first + 2, None))
            else
              (case parse_field buf first last' of
                 None \<Rightarrow> None
               | Some (buf', it, ec, fld) \<Rightarrow>
                   if ec \<noteq> None then Some (buf', first, ec)
                   else parse_fields buf' it last'))"
  by pat_completeness auto
termination
  by (relation "measure (\<lambda>(buf, first, last'). length buf - first)")
     (auto dest: parse_field_progress)

declare parse_fields.simps [simp del]

section \<open>The public operations\<close>

text \<open>
  \<open>parse_start_line\<close> is a virtual member whose overriders are not among the sources:
  \<open>parse_header\<close> takes it as the parameter \<open>psl\<close>. Like \<open>parse_version\<close> it receives the
  parser, \<open>first\<close> and \<open>last\<close>, and returns the parser, the new \<open>first\<close> and \<open>ec\<close>.
\<close>

type_synonym start_line_parser =
  "basic_parser \<Rightarrow> nat \<Rightarrow> nat \<Rightarrow> (basic_parser \<times> nat \<times> error_code) option"

text \<open>The label \<open>finish\<close>: \<open>parsed_ = first - buffer_\<close>.\<close>

definition finish :: "basic_parser \<Rightarrow> nat \<Rightarrow> basic_parser" where
  "finish p first = p\<lparr>parsed := first\<rparr>"

text \<open>\<open>case state::fields\<close> of \<open>parse_header\<close>.\<close>

definition header_fields ::
  "basic_parser \<Rightarrow> nat \<Rightarrow> nat \<Rightarrow> (basic_parser \<times> error_code) option" where
  "header_fields p first last' =
     (case buffer p of
        None \<Rightarrow> None
      | Some buf \<Rightarrow>
          (case parse_fields buf first last' of
             None \<Rightarrow> None
           | Some (buf', first', ec) \<Rightarrow>
               if ec \<noteq> None then Some (finish (p\<lparr>buffer := Some buf'\<rparr>) first', ec)
               else Some (finish (p\<lparr>buffer := Some buf', state := body\<rparr>) first', ec)))"

text \<open>\<open>case state::start_line\<close> of \<open>parse_header\<close>, which falls through to the fields.\<close>

definition header_start_line ::
  "start_line_parser \<Rightarrow> basic_parser \<Rightarrow> nat \<Rightarrow> nat \<Rightarrow> (basic_parser \<times> error_code) option" where
  "header_start_line psl p first last' =
     (if \<not> parsed p = 0 then None
      else
        case psl p first last' of
          None \<Rightarrow> None
        | Some (p', first', ec) \<Rightarrow>
            if ec \<noteq> None then Some (finish p' first', ec)
            else header_fields (p'\<lparr>state := state.fields\<rparr>) first' last')"

definition parse_header ::
  "start_line_parser \<Rightarrow> basic_parser \<Rightarrow> (basic_parser \<times> error_code) option" where
  "parse_header psl p =
     (if committed p = 0 then Some (p, Some need_more)
      else
        let first = parsed p; last' = committed p in
        case state p of
          nothing_yet \<Rightarrow> header_start_line psl (p\<lparr>state := start_line\<rparr>) first last'
        | start_line \<Rightarrow> header_start_line psl p first last'
        | state.fields \<Rightarrow> header_fields p first last'
        | _ \<Rightarrow> Some (finish p first, None))"

text \<open>
  The body and chunk operations leave \<open>ec\<close> as the caller passed it, so they return the
  parser only.
\<close>

definition parse_body :: "basic_parser \<Rightarrow> basic_parser" where
  "parse_body p = (case state p of nothing_yet \<Rightarrow> p\<lparr>state := start_line\<rparr> | _ \<Rightarrow> p)"

definition parse_body_part :: "basic_parser \<Rightarrow> basic_parser" where
  "parse_body_part p = (case state p of nothing_yet \<Rightarrow> p\<lparr>state := start_line\<rparr> | _ \<Rightarrow> p)"

definition parse_chunk_ext :: "basic_parser \<Rightarrow> basic_parser" where
  "parse_chunk_ext p = p"

definition parse_chunk_part :: "basic_parser \<Rightarrow> basic_parser" where
  "parse_chunk_part p = p"

definition parse_chunk_trailer :: "basic_parser \<Rightarrow> basic_parser" where
  "parse_chunk_trailer p = p"

text \<open>\<open>body()\<close> returns the empty view \<open>{nullptr, 0}\<close>.\<close>

definition body_view :: "basic_parser \<Rightarrow> string" where
  "body_view p = []"

text \<open>
  Modelled from the spec: \<open>parse_start_line\<close> of the request configuration
  (request_parser is not among the sources), for
  \<open>request-line = method SP request-target SP HTTP-version CRLF\<close>: the method is a
  token, the target runs to the next SP, the version is read by \<open>parse_version\<close>. The spec
  names no code for a malformed method or target; \<open>bad_value\<close> stands for it here. On an
  error \<open>first\<close> is left as it was.
\<close>

definition request_start_line :: start_line_parser where
  "request_start_line p first last' =
     (case buffer p of
        None \<Rightarrow> None
      | Some buf \<Rightarrow>
          do {
            it1 \<leftarrow> set_skip tchar_contains buf first last';
            if it1 = last' then Some (p, first, Some need_more)
            else
              do {
                c1 \<leftarrow> rd buf it1;
                if c1 \<noteq> SP then Some (p, first, Some bad_value)
                else if it1 = first then Some (p, first, Some bad_value)
                else
                  do {
                    it2 \<leftarrow> set_skip (\<lambda>c. c \<noteq> SP) buf (it1 + 1) last';
                    if it2 = last' then Some (p, first, Some need_more)
                    else if it2 = it1 + 1 then Some (p, first, Some bad_value)
                    else
                      do {
                        (p', it3, ec) \<leftarrow> parse_version p buf (it2 + 1) last';
                        if ec \<noteq> None then Some (p', first, ec)
                        else if int last' - int it3 < 2 then Some (p', first, Some need_more)
                        else
                          do {
                            c2 \<leftarrow> rd buf it3;
                            c3 \<leftarrow> rd buf (it3 + 1);
                            if c2 \<noteq> CR then Some (p', first, Some bad_line_ending)
                            else if c3 \<noteq> LF then Some (p', first, Some bad_line_ending)
                            else Some (p', it3 + 2, None)
                          }
                      }
                  }
              }
          })"

section \<open>The BNF algorithms\<close>

text \<open>
  A grammar element is the template parameter \<open>Element\<close>: its member
  \<open>parse(start, end, ec)\<close> returns a position and sets \<open>ec\<close>, which is clear when it is
  called. A list is the parameter \<open>List\<close>: \<open>begin\<close> and \<open>increment\<close> do the same and may
  change the list object, of type \<open>'l\<close>.
\<close>

type_synonym element = "string \<Rightarrow> nat \<Rightarrow> nat \<Rightarrow> nat \<times> error_code"

type_synonym 'l list_begin = "string \<Rightarrow> nat \<Rightarrow> nat \<Rightarrow> 'l \<times> nat \<times> error_code"

type_synonym 'l list_increment = "'l \<Rightarrow> string \<Rightarrow> nat \<Rightarrow> nat \<Rightarrow> 'l \<times> nat \<times> error_code"

text \<open>
  Modelled from the spec: \<open>error_code::failed()\<close>. The sentinel \<open>end\<close> is a signal of the
  BNF contract, not a failure; every other code is one.
\<close>

definition ec_failed :: "error_code \<Rightarrow> bool" where
  "ec_failed ec = (ec \<noteq> None \<and> ec \<noteq> Some error_end)"

text \<open>\<open>consume<Element>(start, end)\<close>; \<open>None\<close> when a \<open>BOOST_ASSERT\<close> fails.\<close>

definition consume_element :: "element \<Rightarrow> string \<Rightarrow> nat \<Rightarrow> nat \<Rightarrow> nat option" where
  "consume_element e s start end' =
     (case e s start end' of
        (it, ec) \<Rightarrow>
          if ec_failed ec then (if \<not> it = start then None else Some start)
          else if ec \<noteq> Some error_end then (if \<not> it = start then None else Some start)
          else Some it)"

text \<open>
  The loop of \<open>consume<List>(start, end)\<close>, entered with the list object, \<open>it\<close> and \<open>ec\<close>
  as \<open>begin\<close> or the last \<open>increment\<close> left them; \<open>None\<close> when it runs forever.
\<close>

partial_function (option) consume_list_loop ::
  "'l list_increment \<Rightarrow> string \<Rightarrow> nat \<Rightarrow> nat \<Rightarrow> 'l \<Rightarrow> nat \<Rightarrow> error_code \<Rightarrow> nat option" where
  "consume_list_loop inc s start end' l it ec =
     (if ec = Some error_end then Some it
      else if ec_failed ec then Some start
      else
        case inc l s it end' of
          (l', it', ec') \<Rightarrow> consume_list_loop inc s start end' l' it' ec')"

definition consume_list ::
  "'l list_begin \<Rightarrow> 'l list_increment \<Rightarrow> string \<Rightarrow> nat \<Rightarrow> nat \<Rightarrow> nat option" where
  "consume_list bgn inc s start end' =
     (case bgn s start end' of
        (l, it, ec) \<Rightarrow> consume_list_loop inc s start end' l it ec)"

text \<open>
  \<open>is_valid<BNF>(s)\<close>, for an element and for a list: \<open>s.data()\<close> is position 0 and \<open>end\<close>
  is \<open>length s\<close>. It returns when \<open>consume\<close> does.
\<close>

definition is_valid_element :: "element \<Rightarrow> string \<Rightarrow> bool option" where
  "is_valid_element e s =
     (let end' = length s in
      case consume_element e s 0 end' of None \<Rightarrow> None | Some it \<Rightarrow> Some (it = end'))"

definition is_valid_list :: "'l list_begin \<Rightarrow> 'l list_increment \<Rightarrow> string \<Rightarrow> bool option" where
  "is_valid_list bgn inc s =
     (let end' = length s in
      case consume_list bgn inc s 0 end' of None \<Rightarrow> None | Some it \<Rightarrow> Some (it = end'))"

section \<open>Notions used by the properties\<close>

text \<open>The cursor invariant \<open>0 \<le> parsed \<le> committed \<le> capacity\<close>; the cursors are \<open>nat\<close>.\<close>

definition cursor_inv :: "basic_parser \<Rightarrow> bool" where
  "cursor_inv p = (0 \<le> parsed p \<and> parsed p \<le> committed p \<and> committed p \<le> capacity p)"

text \<open>
  The array behind \<open>buffer_\<close> has \<open>capacity_\<close> bytes, and none when the pointer is null;
  \<open>capacity_\<close> is a \<open>std::size_t\<close>.
\<close>

definition buffer_inv :: "basic_parser \<Rightarrow> bool" where
  "buffer_inv p =
     (capacity p < 2 ^ 64 \<and>
      (case buffer p of None \<Rightarrow> capacity p = 0 | Some buf \<Rightarrow> length buf = capacity p))"

text \<open>
  What can be observed of a freshly constructed parser, the buffer and its capacity
  aside: the members as the constructor sets them, and no version.
\<close>

definition blank :: "basic_parser \<Rightarrow> bool" where
  "blank p =
     (state p = nothing_yet \<and> parsed p = 0 \<and> committed p = 0 \<and> version p = None \<and>
      header_limit p = 8192 \<and> skip p = 0 \<and> f_bits p = 0)"

text \<open>
  Obs-fold normalisation as the spec words it: reading from the left, every CRLF that
  is followed by SP or HTAB becomes three SP, and every other byte stays.
\<close>

fun unfold_obs :: "char list \<Rightarrow> char list" where
  "unfold_obs (a # b # c # rest) =
     (if a = CR \<and> b = LF \<and> ws_contains c then SP # SP # SP # unfold_obs rest
      else a # unfold_obs (b # c # rest))"
| "unfold_obs xs = xs"

text \<open>
  The name and the value of a field line that starts at \<open>start\<close> and whose CRLF ends at
  \<open>it\<close>, read off the buffer: the name is the run of token characters at \<open>start\<close>, the
  value is what lies between the colon after the name and the CRLF, less the whitespace
  it begins with.
\<close>

definition line_name :: "char list \<Rightarrow> nat \<Rightarrow> string" where
  "line_name buf start = takeWhile tchar_contains (drop start buf)"

definition line_value :: "char list \<Rightarrow> nat \<Rightarrow> nat \<Rightarrow> string" where
  "line_value buf start it =
     dropWhile ws_contains (slice buf (start + length (line_name buf start) + 1) (it - 2))"

text \<open>
  A folded field value, piece by piece. A piece \<open>(s, w, t)\<close> is a run \<open>s\<close> of field-vchar
  bytes (possibly empty), an obs-fold CR LF \<open>w\<close> with \<open>w\<close> SP or HTAB, and further
  whitespace \<open>t\<close>. \<open>folded_value ps s\<close> is the text of the pieces \<open>ps\<close> followed by a last
  run \<open>s\<close>; \<open>flat_value ps s\<close> is the same text with the three bytes of every fold
  replaced by SP.
\<close>

type_synonym fold_piece = "string \<times> char \<times> string"

definition piece_ok :: "fold_piece \<Rightarrow> bool" where
  "piece_ok pc =
     (case pc of (s, w, t) \<Rightarrow>
        list_all field_vchar_contains s \<and> ws_contains w \<and> list_all ws_contains t)"

definition piece_bytes :: "fold_piece \<Rightarrow> string" where
  "piece_bytes pc = (case pc of (s, w, t) \<Rightarrow> s @ [CR, LF, w] @ t)"

definition piece_flat :: "fold_piece \<Rightarrow> string" where
  "piece_flat pc = (case pc of (s, w, t) \<Rightarrow> s @ [SP, SP, SP] @ t)"

definition folded_value :: "fold_piece list \<Rightarrow> string \<Rightarrow> string" where
  "folded_value ps s = concat (map piece_bytes ps) @ s"

definition flat_value :: "fold_piece list \<Rightarrow> string \<Rightarrow> string" where
  "flat_value ps s = concat (map piece_flat ps) @ s"

section \<open>Concrete inputs\<close>

text \<open>
  A request whose one field has an obs-fold, followed by the first bytes of what the
  peer sends next. Its first 24 bytes end with the \<open>b\<close> of the folded value.
\<close>

definition received :: string where
  "received =
     ''GET / HTTP/1.1'' @ [CR, LF] @ ''X: a'' @ [CR, LF] @ '' b'' @ [CR, LF] @ ''Y''"

text \<open>The parser after \<open>prepare\<close>, a store of \<open>received\<close> in the region, and \<open>commit(24)\<close>.\<close>

definition received_parser :: basic_parser where
  "received_parser =
     basic_parser_init\<lparr>buffer := Some (received @ new_chars 4069), capacity := 4096,
       committed := 24\<rparr>"

text \<open>The field line of scenario S2 of the spec, with the CRLF that ends the block.\<close>

definition folded_line :: string where
  "folded_line = ''X: a'' @ [CR, LF] @ '' b'' @ [CR, LF, CR, LF]"

text \<open>
  A request of 8223 bytes, above the default header limit, and the parser that has it
  committed in a buffer of three increments.
\<close>

definition long_header :: string where
  "long_header =
     ''GET / HTTP/1.1'' @ [CR, LF] @ ''X: '' @ replicate 8200 (CHR ''a'') @ [CR, LF, CR, LF]"

definition long_header_parser :: basic_parser where
  "long_header_parser =
     basic_parser_init\<lparr>buffer := Some (long_header @ new_chars 4065), capacity := 12288,
       committed := 8223\<rparr>"

text \<open>A request whose field line has an empty name, committed in a fresh buffer.\<close>

definition bad_name_request :: string where
  "bad_name_request = ''GET / HTTP/1.1'' @ [CR, LF] @ '': x'' @ [CR, LF, CR, LF]"

definition bad_name_parser :: basic_parser where
  "bad_name_parser =
     basic_parser_init\<lparr>buffer := Some (bad_name_request @ new_chars 4073), capacity := 4096,
       committed := 23\<rparr>"

text \<open>
  The first 24 bytes of a request whose field value is followed by three SP: the
  bytes \<open>LF CR LF\<close> that complete it arrive later.
\<close>

definition split_request :: string where
  "split_request = ''GET / HTTP/1.1'' @ [CR, LF] @ ''X: a   '' @ [CR]"

text \<open>The parser after \<open>prepare\<close>, a store of \<open>split_request\<close> in the region, and \<open>commit(24)\<close>.\<close>

definition split_parser :: basic_parser where
  "split_parser =
     basic_parser_init\<lparr>buffer := Some (split_request @ new_chars 4072), capacity := 4096,
       committed := 24\<rparr>"

text \<open>
  A field line whose value is followed by a space and then by an obs-fold, and one
  whose value is followed by a tab and then by an obs-fold.
\<close>

definition spaced_fold_line :: "char list" where
  "spaced_fold_line = ''X: a '' @ [CR, LF] @ '' b'' @ [CR, LF, CR, LF]"

definition tab_fold_line :: "char list" where
  "tab_fold_line = ''K:v'' @ [HTAB, CR, LF, HTAB] @ ''z'' @ [CR, LF]"

section \<open>Evaluation\<close>

text \<open>The unfoldings that evaluate the parser on a concrete buffer.\<close>

lemmas ctype_defs =
  tchar_contains_def is_digit_def is_alpha_def ws_contains_def field_vchar_contains_def

lemmas field_defs =
  parse_field_def field_value.simps field_content_def set_skip.simps rd_def slice_def
  ctype_defs field_dispatch_def string_to_field_def iequals_def ascii_lower_def
  do_connection_def do_content_length_def do_transfer_encoding_def do_upgrade_def

lemmas header_defs =
  parse_header_def header_start_line_def header_fields_def finish_def
  request_start_line_def parse_version_def parse_fields.simps field_defs

section \<open>Facts about the model\<close>

lemma basic_parser_init_sel:
  "buffer basic_parser_init = None" "capacity basic_parser_init = 0"
  "committed basic_parser_init = 0" "parsed basic_parser_init = 0"
  "state basic_parser_init = nothing_yet" "header_limit basic_parser_init = 8192"
  "skip basic_parser_init = 0" "f_bits basic_parser_init = 0" "version basic_parser_init = None"
  by (simp_all add: basic_parser_init_def)

lemma field_content_Stop:
  "field_content buf end' it v0 = Some (Exit (Stop e)) \<Longrightarrow>
     e = need_more \<or> e = bad_line_ending \<or> e = bad_value"
  unfolding field_content_def
  by (auto simp: Let_def split: bind_splits if_splits)

lemma field_value_Stop:
  "field_value buf end' it v0 = Some r \<Longrightarrow> r = (buf', Stop e) \<Longrightarrow>
     e = need_more \<or> e = bad_field \<or> e = bad_line_ending \<or> e = bad_value"
proof (induction rule: field_value_run)
  case (exit buf end' it v0 x)
  then show ?case by (auto dest: field_content_Stop)
qed auto

lemma field_dispatch_same: "field_dispatch fld v ec = ec"
  by (cases fld)
     (simp_all add: field_dispatch_def do_connection_def do_content_length_def
        do_transfer_encoding_def do_upgrade_def)

lemma parse_field_codes:
  assumes "parse_field buf start end0 = Some (buf', it, ec, fld)"
  shows "ec = None \<or> ec = Some need_more \<or> ec = Some bad_field \<or>
     ec = Some bad_line_ending \<or> ec = Some bad_value"
proof (cases "start = end0 \<or> int end0 - int start < 3")
  case True
  with assms show ?thesis by (auto simp: parse_field_def split: if_splits)
next
  case False
  with assms obtain it0 where it0: "set_skip tchar_contains buf start (end0 - 3) = Some it0"
    by (auto simp: parse_field_def Let_def split: bind_splits)
  show ?thesis
  proof (cases "it0 = end0 - 3")
    case True
    with assms False it0 show ?thesis by (auto simp: parse_field_def Let_def)
  next
    case ne: False
    with assms False it0 obtain c where c: "rd buf it0 = Some c"
      by (auto simp: parse_field_def Let_def split: bind_splits)
    show ?thesis
    proof (cases "c \<noteq> CHR '':'' \<or> it0 = start")
      case True
      with assms False it0 ne c show ?thesis
        by (auto simp: parse_field_def Let_def split: if_splits)
    next
      case ok: False
      with assms False it0 ne c obtain it1 r where
        it1: "set_skip ws_contains buf (it0 + 1) (end0 - 3) = Some it1" and
        r: "field_value buf (end0 - 3) it1 None = Some r"
        by (auto simp: parse_field_def Let_def split: bind_splits)
      obtain b x where rx: "r = (b, x)" by (cases r)
      show ?thesis
      proof (cases x)
        case (Stop e)
        with assms False it0 ne c ok it1 r rx have "ec = Some e"
          by (auto simp: parse_field_def Let_def)
        with field_value_Stop [OF r rx [unfolded Stop]] show ?thesis by auto
      next
        case (Line_end a b c)
        with assms False it0 ne c ok it1 r rx have "ec = None"
          by (auto simp: parse_field_def Let_def field_dispatch_same)
        then show ?thesis by simp
      qed
    qed
  qed
qed

lemma parse_fields_codes:
  "parse_fields buf first last' = Some (buf', first', ec) \<Longrightarrow>
     ec = None \<or> ec = Some need_more \<or> ec = Some bad_field \<or>
     ec = Some bad_line_ending \<or> ec = Some bad_value"
proof (induction buf first last' rule: parse_fields.induct)
  case (1 buf first last')
  note run = "1.prems"
  show ?case
  proof (cases "int last' - int first < 2")
    case True
    with run show ?thesis by (subst (asm) parse_fields.simps) auto
  next
    case ge: False
    with run obtain c0 where c0: "rd buf first = Some c0"
      by (subst (asm) parse_fields.simps) (auto split: option.splits)
    show ?thesis
    proof (cases "c0 = CR")
      case True
      with run ge c0 show ?thesis
        by (subst (asm) parse_fields.simps) (auto split: option.splits if_splits)
    next
      case ncr: False
      with run ge c0 obtain b it e fld where pf: "parse_field buf first last' = Some (b, it, e, fld)"
        by (subst (asm) parse_fields.simps) (auto split: option.splits)
      show ?thesis
      proof (cases "e = None")
        case True
        with run ge c0 ncr pf have "parse_fields b it last' = Some (buf', first', ec)"
          by (subst (asm) parse_fields.simps) simp
        with "1.IH" [OF ge c0 ncr pf _ _ _ _] True show ?thesis by simp
      next
        case False
        with run ge c0 ncr pf have "ec = e"
          by (subst (asm) parse_fields.simps) auto
        with parse_field_codes [OF pf] show ?thesis by simp
      qed
    qed
  qed
qed

lemma header_fields_result:
  assumes "header_fields p first last' = Some (p', ec)"
  shows "(ec = None \<or> ec = Some need_more \<or> ec = Some bad_field \<or>
          ec = Some bad_line_ending \<or> ec = Some bad_value) \<and>
         state p' = (if ec = None then body else state p)"
proof -
  from assms obtain buf buf' first' where
    b: "buffer p = Some buf" and pf: "parse_fields buf first last' = Some (buf', first', ec)"
    by (auto simp: header_fields_def split: option.splits if_splits)
  from assms b pf have "state p' = (if ec = None then body else state p)"
    by (auto simp: header_fields_def finish_def split: if_splits)
  with parse_fields_codes [OF pf] show ?thesis by simp
qed

lemma header_fields_limit:
  "header_fields (p\<lparr>header_limit := n\<rparr>) first last' =
     map_option (\<lambda>(q, ec). (q\<lparr>header_limit := n\<rparr>, ec)) (header_fields p first last')"
  by (auto simp: header_fields_def finish_def split: option.splits)

lemma set_skip_run:
  assumes "first \<le> j" "j \<le> last'"
    and "\<forall>k. first \<le> k \<and> k < j \<longrightarrow> k < length buf \<and> contains (buf ! k)"
    and "j = last' \<or> (j < length buf \<and> \<not> contains (buf ! j))"
  shows "set_skip contains buf first last' = Some j"
  using assms
proof (induction "j - first" arbitrary: first)
  case 0
  then have "first = j" by simp
  with 0 show ?case by (subst set_skip.simps) auto
next
  case (Suc n)
  then have lt: "first < j" by simp
  with Suc.prems have a: "first \<noteq> last'" "first < length buf" "contains (buf ! first)"
    by auto
  have "set_skip contains buf (Suc first) last' = Some j"
    using Suc.hyps(2) Suc.prems lt by (intro Suc.hyps(1)) auto
  with a show ?case by (subst set_skip.simps) simp
qed

text \<open>Slices of the buffer, and the normalisation on lines without and with a fold.\<close>

lemma unfold_obs_Cons: "a \<noteq> CR \<Longrightarrow> unfold_obs (a # xs) = a # unfold_obs xs"
  by (cases "(a # xs)" rule: unfold_obs.cases) auto

lemma unfold_obs_no_CR: "CR \<notin> set xs \<Longrightarrow> unfold_obs (xs @ ys) = xs @ unfold_obs ys"
  by (induction xs) (auto simp: unfold_obs_Cons)

lemma unfold_obs_fold:
  "ws_contains c \<Longrightarrow> unfold_obs (CR # LF # c # ys) = SP # SP # SP # unfold_obs ys"
  by simp

lemma slice_split: "i \<le> j \<Longrightarrow> j \<le> k \<Longrightarrow> slice buf i k = slice buf i j @ slice buf j k"
proof -
  assume a: "i \<le> j" "j \<le> k"
  then have e: "k - i = (j - i) + (k - j)" by simp
  have "take (k - i) (drop i buf) =
      take (j - i) (drop i buf) @ take (k - j) (drop (j - i) (drop i buf))"
    unfolding e by (rule take_add)
  with a show ?thesis by (simp add: slice_def)
qed

lemma slice_3:
  "i + 2 < length buf \<Longrightarrow> slice buf i (i + 3) = [buf ! i, buf ! (i + 1), buf ! (i + 2)]"
proof -
  assume a: "i + 2 < length buf"
  have "take 3 (drop i buf) = [drop i buf ! 0, drop i buf ! 1, drop i buf ! 2]"
    using a by (intro nth_equalityI) (auto simp: nth_Cons' less_Suc_eq numeral_3_eq_3)
  with a show ?thesis by (simp add: slice_def)
qed

lemma slice_2:
  "i + 1 < length buf \<Longrightarrow> slice buf i (i + 2) = [buf ! i, buf ! (i + 1)]"
proof -
  assume a: "i + 1 < length buf"
  have "take 2 (drop i buf) = [drop i buf ! 0, drop i buf ! 1]"
    using a by (intro nth_equalityI) (auto simp: nth_Cons' less_Suc_eq numeral_2_eq_2)
  with a show ?thesis by (simp add: slice_def)
qed

lemma slice_nth:
  "j \<le> length buf \<Longrightarrow> k < j - i \<Longrightarrow> slice buf i j ! k = buf ! (i + k)"
  by (simp add: slice_def)

lemma length_slice: "j \<le> length buf \<Longrightarrow> length (slice buf i j) = j - i"
  by (simp add: slice_def)

lemma set_slice:
  "j \<le> length buf \<Longrightarrow> c \<in> set (slice buf i j) \<Longrightarrow> \<exists>k. i \<le> k \<and> k < j \<and> c = buf ! k"
proof -
  assume a: "j \<le> length buf" and "c \<in> set (slice buf i j)"
  then obtain n where n: "n < length (slice buf i j)" "c = slice buf i j ! n"
    by (auto simp: in_set_conv_nth)
  with a have "n < j - i" "c = buf ! (i + n)"
    by (simp_all add: length_slice slice_nth)
  then show ?thesis by (intro exI [of _ "i + n"]) auto
qed

lemma slice_update_outside:
  "n < i \<or> j \<le> n \<Longrightarrow> slice (buf[n := x]) i j = slice buf i j"
proof (cases "n < i")
  case True
  then show ?thesis by (simp add: slice_def drop_update_cancel)
next
  case False
  assume "n < i \<or> j \<le> n"
  with False have "j \<le> n" "i \<le> n" by auto
  then show ?thesis by (simp add: slice_def drop_update_swap take_update_cancel)
qed

lemma whole_by_slices:
  "i \<le> j \<Longrightarrow> j \<le> length buf \<Longrightarrow> take i buf @ slice buf i j @ drop j buf = buf"
proof -
  assume a: "i \<le> j" "j \<le> length buf"
  have "drop j buf = drop (j - i) (drop i buf)" using a by simp
  then have "slice buf i j @ drop j buf = drop i buf"
    unfolding slice_def by (simp only: append_take_drop_id)
  then show ?thesis by simp
qed

lemma take_slice: "i \<le> j \<Longrightarrow> take j buf = take i buf @ slice buf i j"
proof -
  assume "i \<le> j"
  then have "j = i + (j - i)" by simp
  then have "take j buf = take (i + (j - i)) buf" by simp
  also have "\<dots> = take i buf @ take (j - i) (drop i buf)" by (rule take_add)
  finally show ?thesis by (simp add: slice_def)
qed

lemma value_byte_not_CRLF:
  "field_vchar_contains c \<or> ws_contains c \<Longrightarrow> c \<noteq> CR \<and> c \<noteq> LF"
  by (auto simp: field_vchar_contains_def ws_contains_def)

lemma tchar_not_CR: "tchar_contains c \<Longrightarrow> c \<noteq> CR"
  by (auto simp: tchar_contains_def is_digit_def is_alpha_def)

lemma slice_drop: "i \<le> j \<Longrightarrow> slice buf i j @ drop j buf = drop i buf"
proof -
  assume a: "i \<le> j"
  then have "drop j buf = drop (j - i) (drop i buf)" by simp
  then show ?thesis
    unfolding slice_def by (simp only: append_take_drop_id)
qed

lemma no_CR_slice:
  assumes "j \<le> length buf"
    and "\<forall>k. i \<le> k \<and> k < j \<longrightarrow> buf ! k \<noteq> CR"
  shows "CR \<notin> set (slice buf i j)"
proof
  assume "CR \<in> set (slice buf i j)"
  from set_slice [OF assms(1) this] assms(2) show False by auto
qed

text \<open>A line that ends at \<open>b\<close>: the bytes from \<open>it\<close> hold no CR before the CRLF at \<open>b\<close>.\<close>

lemma unfold_obs_plain_line:
  assumes "it \<le> b" "b + 2 \<le> length buf" "buf ! b = CR" "buf ! (b + 1) = LF"
    and "\<forall>k. it \<le> k \<and> k < b \<longrightarrow> buf ! k \<noteq> CR"
  shows "unfold_obs (slice buf it (b + 2)) @ drop (b + 2) buf = drop it buf"
proof -
  have s: "slice buf it (b + 2) = slice buf it b @ slice buf b (b + 2)"
    using assms(1) by (intro slice_split) auto
  have e: "slice buf b (b + 2) = [CR, LF]"
    using slice_2 [of b buf] assms by simp
  have n: "CR \<notin> set (slice buf it b)"
    using assms by (intro no_CR_slice) auto
  have "unfold_obs (slice buf it (b + 2)) = slice buf it (b + 2)"
    unfolding s e using n by (simp add: unfold_obs_no_CR)
  then show ?thesis
    using assms(1) by (simp add: slice_drop)
qed

lemma slice_blanked:
  "n + 2 < i \<or> j \<le> n \<Longrightarrow>
     slice (buf[n := x, n + 1 := y, n + 2 := z]) i j = slice buf i j"
  by (auto simp: slice_update_outside)

lemma unfold_obs_folded_line:
  assumes buf3_def: "buf3 = buf[it1 := SP, it1 + 1 := SP, it1 + 2 := SP]"
    and le: "it \<le> it1" "it1 + 3 \<le> it2'" "it2' \<le> it2" "it2 \<le> length buf"
    and fold: "buf ! it1 = CR" "buf ! (it1 + 1) = LF" "ws_contains (buf ! (it1 + 2))"
    and before: "\<forall>k. it \<le> k \<and> k < it1 \<longrightarrow> buf ! k \<noteq> CR"
    and after: "\<forall>k. it1 + 3 \<le> k \<and> k < it2' \<longrightarrow> buf ! k \<noteq> CR"
  shows "slice buf3 it it2' @ unfold_obs (slice buf3 it2' it2) @ drop it2 buf3 =
         unfold_obs (slice buf it it2) @ drop it2 buf"
proof -
  have len: "it1 + 2 < length buf" using le by simp
  have a1: "slice buf it it2 = slice buf it it1 @ slice buf it1 it2"
    using le by (intro slice_split) auto
  have a2: "slice buf it1 it2 = slice buf it1 (it1 + 3) @ slice buf (it1 + 3) it2"
    using le by (intro slice_split) auto
  have a3: "slice buf (it1 + 3) it2 = slice buf (it1 + 3) it2' @ slice buf it2' it2"
    using le by (intro slice_split) auto
  have a4: "slice buf it1 (it1 + 3) = [CR, LF, buf ! (it1 + 2)]"
    using slice_3 [OF len] fold by simp
  have n1: "CR \<notin> set (slice buf it it1)"
    using le before by (intro no_CR_slice) auto
  have n2: "CR \<notin> set (slice buf (it1 + 3) it2')"
    using le after by (intro no_CR_slice) auto
  have lhs: "unfold_obs (slice buf it it2) =
      slice buf it it1 @ [SP, SP, SP] @ slice buf (it1 + 3) it2' @ unfold_obs (slice buf it2' it2)"
    unfolding a1 a2 a3 a4
    using n1 n2 fold(3) by (simp add: unfold_obs_no_CR)
  have b1: "slice buf3 it it2' = slice buf3 it it1 @ slice buf3 it1 it2'"
    using le by (intro slice_split) auto
  have b2: "slice buf3 it1 it2' = slice buf3 it1 (it1 + 3) @ slice buf3 (it1 + 3) it2'"
    using le by (intro slice_split) auto
  have len3: "it1 + 2 < length buf3" using len by (simp add: buf3_def)
  have b3: "slice buf3 it1 (it1 + 3) = [SP, SP, SP]"
    using slice_3 [OF len3] len by (simp add: buf3_def nth_list_update)
  have b4: "slice buf3 it it1 = slice buf it it1"
    unfolding buf3_def by (simp add: slice_update_outside)
  have b5: "slice buf3 (it1 + 3) it2' = slice buf (it1 + 3) it2'"
    unfolding buf3_def by (simp add: slice_update_outside)
  have b6: "slice buf3 it2' it2 = slice buf it2' it2"
    unfolding buf3_def using le by (simp add: slice_update_outside)
  have b7: "drop it2 buf3 = drop it2 buf"
    unfolding buf3_def using le by (simp add: drop_update_cancel)
  show ?thesis
    unfolding lhs b1 b2 b3 b4 b5 b6 b7 by simp
qed

text \<open>What the scanners and the first block of the loop body have passed over.\<close>

lemma set_skip_all:
  "set_skip contains buf first last' = Some j \<Longrightarrow>
     \<forall>k. first \<le> k \<and> k < j \<longrightarrow> k < length buf \<and> contains (buf ! k)"
proof (induction contains buf first last' rule: set_skip.induct)
  case (1 contains buf first last')
  show ?case
  proof (cases "first = last' \<or> length buf \<le> first \<or> \<not> contains (buf ! first)")
    case True
    with "1.prems" have "j = first"
      by (subst (asm) set_skip.simps) (auto split: if_splits)
    then show ?thesis by auto
  next
    case False
    with "1.prems" have rec: "set_skip contains buf (Suc first) last' = Some j"
      by (subst (asm) set_skip.simps) (auto split: if_splits)
    from False have "first \<noteq> last'" "\<not> length buf \<le> first" "contains (buf ! first)" by auto
    from "1.IH" [OF this rec] False show ?thesis
      by (auto simp: le_Suc_eq less_Suc_eq_le dest: le_neq_implies_less)
  qed
qed

lemma field_content_Fall:
  assumes "field_content buf end' it v0 = Some (Fall it1 v0')"
  shows "it \<le> it1 \<and>
     (\<forall>k. it \<le> k \<and> k < it1 \<longrightarrow>
        k < length buf \<and> (field_vchar_contains (buf ! k) \<or> ws_contains (buf ! k))) \<and>
     (v0' = v0 \<or> (v0 = None \<and> v0' = Some it))"
proof (cases "rd buf it")
  case None
  with assms show ?thesis by (simp add: field_content_def)
next
  case (Some c)
  then have inb: "it < length buf" "buf ! it = c" by (auto simp: rd_def split: if_splits)
  show ?thesis
  proof (cases "field_vchar_contains c")
    case False
    with assms Some show ?thesis by (auto simp: field_content_def)
  next
    case fv: True
    with assms Some obtain j where
      j: "set_skip field_vchar_contains buf (it + 1) end' = Some j"
      by (auto simp: field_content_def Let_def split: bind_splits)
    have ge: "it + 1 \<le> j" using j by (rule set_skip_ge)
    have run: "\<forall>k. it \<le> k \<and> k < j \<longrightarrow> k < length buf \<and> field_vchar_contains (buf ! k)"
    proof (intro allI impI)
      fix k assume k: "it \<le> k \<and> k < j"
      show "k < length buf \<and> field_vchar_contains (buf ! k)"
      proof (cases "k = it")
        case True
        with inb fv show ?thesis by simp
      next
        case False
        with k have "it + 1 \<le> k \<and> k < j" by simp
        with set_skip_all [OF j] show ?thesis by blast
      qed
    qed
    from assms Some fv j have ne: "j \<noteq> end'"
      by (auto simp: field_content_def Let_def split: if_splits)
    with assms Some fv j obtain c1 where c1: "rd buf j = Some c1"
      by (auto simp: field_content_def Let_def split: bind_splits)
    have v0cases: "Some (case v0 of None \<Rightarrow> it | Some v \<Rightarrow> v) = v0 \<or>
        (v0 = None \<and> Some (case v0 of None \<Rightarrow> it | Some v \<Rightarrow> v) = Some it)"
      by (cases v0) auto
    show ?thesis
    proof (cases "ws_contains c1")
      case False
      with assms Some fv j ne c1 have "it1 = j"
        "v0' = Some (case v0 of None \<Rightarrow> it | Some v \<Rightarrow> v)"
        by (auto simp: field_content_def Let_def)
      with ge run v0cases show ?thesis by auto
    next
      case ws: True
      with assms Some fv j ne c1 obtain k2 c2 where
        k2: "set_skip ws_contains buf j end' = Some k2" and c2: "rd buf k2 = Some c2"
        by (auto simp: field_content_def Let_def split: bind_splits)
      have ge2: "j \<le> k2" using k2 by (rule set_skip_ge)
      from assms Some fv j ne c1 ws k2 c2 have res: "it1 = k2"
        "v0' = Some (case v0 of None \<Rightarrow> it | Some v \<Rightarrow> v)"
        by (auto simp: field_content_def Let_def split: bind_splits if_splits)
      have "\<forall>k. it \<le> k \<and> k < k2 \<longrightarrow>
          k < length buf \<and> (field_vchar_contains (buf ! k) \<or> ws_contains (buf ! k))"
      proof (intro allI impI)
        fix k assume k: "it \<le> k \<and> k < k2"
        show "k < length buf \<and> (field_vchar_contains (buf ! k) \<or> ws_contains (buf ! k))"
        proof (cases "k < j")
          case True
          with k run show ?thesis by blast
        next
          case False
          with k have "j \<le> k \<and> k < k2" by simp
          with set_skip_all [OF k2] show ?thesis by blast
        qed
      qed
      with res ge ge2 v0cases show ?thesis by auto
    qed
  qed
qed

lemma field_content_Exit:
  assumes "field_content buf end' it v0 = Some (Exit (Line_end it2 a b))"
  shows "it \<le> b \<and> it2 = b + 2 \<and> it2 < length buf \<and> buf ! b = CR \<and> buf ! (b + 1) = LF \<and>
     (\<forall>k. it \<le> k \<and> k < b \<longrightarrow>
        k < length buf \<and> (field_vchar_contains (buf ! k) \<or> ws_contains (buf ! k))) \<and>
     a = (case v0 of None \<Rightarrow> it | Some v \<Rightarrow> v)"
proof -
  from assms obtain c where c: "rd buf it = Some c" and fv: "field_vchar_contains c"
    by (auto simp: field_content_def Let_def split: bind_splits if_splits)
  then have inb: "it < length buf" "buf ! it = c" by (auto simp: rd_def split: if_splits)
  from assms c fv obtain j where
    j: "set_skip field_vchar_contains buf (it + 1) end' = Some j"
    by (auto simp: field_content_def Let_def split: bind_splits)
  have ge: "it + 1 \<le> j" using j by (rule set_skip_ge)
  from assms c fv j have ne: "j \<noteq> end'"
    by (auto simp: field_content_def Let_def split: if_splits)
  with assms c fv j obtain c1 where c1: "rd buf j = Some c1" and ws: "ws_contains c1"
    by (auto simp: field_content_def Let_def split: bind_splits if_splits)
  with assms c fv j ne obtain k2 c2 where
    k2: "set_skip ws_contains buf j end' = Some k2" and c2: "rd buf k2 = Some c2"
    by (auto simp: field_content_def Let_def split: bind_splits)
  have ge2: "j \<le> k2" using k2 by (rule set_skip_ge)
  from assms c fv j ne c1 ws k2 c2 have cr: "c2 = CR"
    by (auto simp: field_content_def Let_def split: if_splits)
  with assms c fv j ne c1 ws k2 c2 obtain c3 where c3: "rd buf (k2 + 1) = Some c3"
    by (auto simp: field_content_def Let_def split: bind_splits)
  with assms c fv j ne c1 ws k2 c2 cr have lf: "c3 = LF"
    by (auto simp: field_content_def Let_def split: if_splits)
  with assms c fv j ne c1 ws k2 c2 cr c3 obtain c4 where c4: "rd buf (k2 + 2) = Some c4"
    by (auto simp: field_content_def Let_def split: bind_splits)
  with assms c fv j ne c1 ws k2 c2 cr c3 lf have res:
    "it2 = k2 + 2" "b = k2" "a = (case v0 of None \<Rightarrow> it | Some v \<Rightarrow> v)"
    by (auto simp: field_content_def Let_def split: if_splits)
  have bytes: "buf ! k2 = CR" "buf ! (k2 + 1) = LF" "k2 + 2 < length buf"
    using c2 cr c3 lf c4 by (auto simp: rd_def split: if_splits)
  have "\<forall>k. it \<le> k \<and> k < k2 \<longrightarrow>
      k < length buf \<and> (field_vchar_contains (buf ! k) \<or> ws_contains (buf ! k))"
  proof (intro allI impI)
    fix k assume k: "it \<le> k \<and> k < k2"
    show "k < length buf \<and> (field_vchar_contains (buf ! k) \<or> ws_contains (buf ! k))"
    proof (cases "k = it")
      case True
      with inb fv show ?thesis by simp
    next
      case nit: False
      show ?thesis
      proof (cases "k < j")
        case True
        with k nit have "it + 1 \<le> k \<and> k < j" by simp
        with set_skip_all [OF j] show ?thesis by blast
      next
        case False
        with k have "j \<le> k \<and> k < k2" by simp
        with set_skip_all [OF k2] show ?thesis by blast
      qed
    qed
  qed
  with res bytes ge ge2 show ?thesis by auto
qed

text \<open>
  The invariant of the value loop: a run that ends a line at \<open>b\<close> has left the bytes
  before \<open>it\<close>, normalised the bytes from \<open>it\<close> to the end of the line, and passed only
  field-vchar and whitespace bytes before \<open>b\<close>.
\<close>

lemma field_value_normalises:
  assumes "field_value buf end' it v0 = Some r" and "r = (buf', Line_end it2 a b)"
  shows "it \<le> b \<and> it2 = b + 2 \<and> it2 < length buf \<and> length buf' = length buf \<and>
         take it buf' = take it buf \<and>
         drop it buf' = unfold_obs (slice buf it it2) @ drop it2 buf \<and>
         (\<forall>k. it \<le> k \<and> k < b \<longrightarrow>
            field_vchar_contains (buf' ! k) \<or> ws_contains (buf' ! k)) \<and>
         (case v0 of None \<Rightarrow> it \<le> a \<and> a \<le> b | Some v \<Rightarrow> a = v)"
  using assms
proof (induction rule: field_value_run)
  case (need_more buf end' it v0)
  then show ?case by simp
next
  case (bad_line_ending buf end' it v0 it1 v0' c1)
  then show ?case by simp
next
  case (bad_field buf end' it v0 it1 v0' c)
  then show ?case by simp
next
  case (exit buf end' it v0 x)
  then have fc: "field_content buf end' it v0 = Some (Exit (Line_end it2 a b))"
    and same: "buf' = buf" by simp_all
  note f = field_content_Exit [OF fc]
  have nocr: "\<forall>k. it \<le> k \<and> k < b \<longrightarrow> buf ! k \<noteq> CR"
    using f value_byte_not_CRLF by blast
  have "unfold_obs (slice buf it (b + 2)) @ drop (b + 2) buf = drop it buf"
    using f nocr by (intro unfold_obs_plain_line) auto
  with f same show ?case by (auto split: option.splits)
next
  case (line_end buf end' it v0 it1 v0' c2)
  then have res: "buf' = buf" "it2 = it1 + 2" "b = it1"
    "a = (case v0' of None \<Rightarrow> it1 | Some v \<Rightarrow> v)" by simp_all
  note f = field_content_Fall [OF line_end(2)]
  have bytes: "buf ! it1 = CR" "buf ! (it1 + 1) = LF" "it1 + 2 < length buf"
    using line_end(3,4,5) by (auto simp: rd_def split: if_splits)
  have nocr: "\<forall>k. it \<le> k \<and> k < it1 \<longrightarrow> buf ! k \<noteq> CR"
    using f value_byte_not_CRLF by blast
  have "unfold_obs (slice buf it (it1 + 2)) @ drop (it1 + 2) buf = drop it buf"
    using f nocr bytes by (intro unfold_obs_plain_line) auto
  with f res bytes show ?case by (auto split: option.splits)
next
  case (fold buf end' it v0 it1 v0' c2 it2' r)
  let ?b3 = "buf[it1 := SP, it1 + 1 := SP, it1 + 2 := SP]"
  note f = field_content_Fall [OF fold(2)]
  have bytes: "buf ! it1 = CR" "buf ! (it1 + 1) = LF" "it1 + 2 < length buf"
    "ws_contains (buf ! (it1 + 2))"
    using fold(3,4,5,6) by (auto simp: rd_def split: if_splits)
  have ge: "it1 + 3 \<le> it2'" using fold(7) by (rule set_skip_ge)
  note ws = set_skip_all [OF fold(7)]
  from fold.IH [OF fold.prems] have ih:
    "it2' \<le> b" "it2 = b + 2" "it2 < length ?b3" "length buf' = length ?b3"
    "take it2' buf' = take it2' ?b3"
    "drop it2' buf' = unfold_obs (slice ?b3 it2' it2) @ drop it2 ?b3"
    "\<forall>k. it2' \<le> k \<and> k < b \<longrightarrow> field_vchar_contains (buf' ! k) \<or> ws_contains (buf' ! k)"
    "case v0' of None \<Rightarrow> it2' \<le> a \<and> a \<le> b | Some v \<Rightarrow> a = v"
    by simp_all
  have le: "it \<le> it1" "it2' \<le> it2" "it2 \<le> length buf"
    using f ih by auto
  have nth': "buf' ! k = ?b3 ! k" if "k < it2'" for k
  proof -
    have "buf' ! k = take it2' buf' ! k" using that by simp
    also have "\<dots> = ?b3 ! k" unfolding ih(5) using that by simp
    finally show ?thesis .
  qed
  have t: "take it buf' = take it buf"
  proof -
    have "take it buf' = take it (take it2' buf')" using le ge by (simp add: min_def)
    also have "\<dots> = take it ?b3" unfolding ih(5) using le ge by (simp add: min_def)
    also have "\<dots> = take it buf" using le by (simp add: take_update_cancel)
    finally show ?thesis .
  qed
  have before: "\<forall>k. it \<le> k \<and> k < it1 \<longrightarrow> buf ! k \<noteq> CR"
    using f value_byte_not_CRLF by blast
  have after: "\<forall>k. it1 + 3 \<le> k \<and> k < it2' \<longrightarrow> buf ! k \<noteq> CR"
  proof (intro allI impI)
    fix k assume k: "it1 + 3 \<le> k \<and> k < it2'"
    with ws have "ws_contains (?b3 ! k)" by blast
    moreover have "?b3 ! k = buf ! k" using k by simp
    ultimately show "buf ! k \<noteq> CR" using value_byte_not_CRLF by metis
  qed
  have d: "drop it buf' = unfold_obs (slice buf it it2) @ drop it2 buf"
  proof -
    have "drop it buf' = slice buf' it it2' @ drop it2' buf'"
      using le ge by (simp add: slice_drop)
    also have "slice buf' it it2' = slice ?b3 it it2'"
    proof -
      have "slice buf' it it2' = drop it (take it2' buf')"
        by (simp add: slice_def drop_take)
      also have "\<dots> = slice ?b3 it it2'"
        unfolding ih(5) by (simp add: slice_def drop_take)
      finally show ?thesis .
    qed
    also have "slice ?b3 it it2' @ drop it2' buf' =
        slice ?b3 it it2' @ unfold_obs (slice ?b3 it2' it2) @ drop it2 ?b3"
      unfolding ih(6) by simp
    also have "\<dots> = unfold_obs (slice buf it it2) @ drop it2 buf"
      using le ge bytes before after
      by (intro unfold_obs_folded_line) auto
    finally show ?thesis .
  qed
  have vw: "\<forall>k. it \<le> k \<and> k < b \<longrightarrow> field_vchar_contains (buf' ! k) \<or> ws_contains (buf' ! k)"
  proof (intro allI impI)
    fix k assume k: "it \<le> k \<and> k < b"
    show "field_vchar_contains (buf' ! k) \<or> ws_contains (buf' ! k)"
    proof (cases "it2' \<le> k")
      case True
      with k ih(7) show ?thesis by blast
    next
      case False
      then have lt: "k < it2'" by simp
      show ?thesis
      proof (cases "k < it1")
        case True
        with k f have "field_vchar_contains (buf ! k) \<or> ws_contains (buf ! k)" by blast
        moreover have "buf' ! k = buf ! k" using nth' [OF lt] True by simp
        ultimately show ?thesis by simp
      next
        case ge1: False
        show ?thesis
        proof (cases "k < it1 + 3")
          case True
          with ge1 bytes have "?b3 ! k = SP"
            by (auto simp: nth_list_update)
          with nth' [OF lt] show ?thesis by (simp add: ws_contains_def)
        next
          case False
          with lt ws have "ws_contains (?b3 ! k)" by auto
          with nth' [OF lt] show ?thesis by simp
        qed
      qed
    qed
  qed
  have v: "case v0 of None \<Rightarrow> it \<le> a \<and> a \<le> b | Some v \<Rightarrow> a = v"
    using f ih(1,8) le ge by (auto split: option.splits)
  from t d vw v ih le ge show ?case by simp
qed

text \<open>Where the value begins on a completed line.\<close>

lemma field_content_Fall_None:
  assumes "field_content buf end' it None = Some (Fall it1 v0')"
  shows "(v0' = None \<and> it1 = it) \<or>
         (v0' = Some it \<and> it < it1 \<and> it < length buf \<and> field_vchar_contains (buf ! it))"
proof (cases "rd buf it")
  case None
  with assms show ?thesis by (simp add: field_content_def)
next
  case (Some c)
  then have inb: "it < length buf" "buf ! it = c" by (auto simp: rd_def split: if_splits)
  show ?thesis
  proof (cases "field_vchar_contains c")
    case False
    with assms Some show ?thesis by (auto simp: field_content_def)
  next
    case fv: True
    with assms Some obtain j where
      j: "set_skip field_vchar_contains buf (it + 1) end' = Some j"
      by (auto simp: field_content_def Let_def split: bind_splits)
    have ge: "it + 1 \<le> j" using j by (rule set_skip_ge)
    from assms Some fv j have "v0' = Some it \<and> j \<le> it1"
      by (auto simp: field_content_def Let_def split: bind_splits if_splits dest: set_skip_ge)
    with ge inb fv show ?thesis by auto
  qed
qed

lemma field_content_Exit_None:
  assumes "field_content buf end' it None = Some (Exit (Line_end it2 a b))"
  shows "a = it \<and> it < b \<and> field_vchar_contains (buf ! it)"
proof -
  from assms obtain c where c: "rd buf it = Some c" and fv: "field_vchar_contains c"
    by (auto simp: field_content_def Let_def split: bind_splits if_splits)
  then have inb: "buf ! it = c" by (auto simp: rd_def split: if_splits)
  from assms c fv obtain j where
    j: "set_skip field_vchar_contains buf (it + 1) end' = Some j"
    by (auto simp: field_content_def Let_def split: bind_splits)
  have ge: "it + 1 \<le> j" using j by (rule set_skip_ge)
  from assms c fv j have "a = it \<and> j \<le> b"
    by (auto simp: field_content_def Let_def split: bind_splits if_splits dest: set_skip_ge)
  with ge inb fv show ?thesis by auto
qed

lemma field_value_value_start:
  assumes "field_value buf end' it v0 = Some r" and "r = (buf', Line_end it2 a b)"
    and "v0 = None"
  shows "(\<forall>k. it \<le> k \<and> k < a \<longrightarrow> ws_contains (buf' ! k)) \<and>
         (a < b \<longrightarrow> field_vchar_contains (buf' ! a))"
  using assms
proof (induction rule: field_value_run)
  case (need_more buf end' it v0)
  then show ?case by simp
next
  case (bad_line_ending buf end' it v0 it1 v0' c1)
  then show ?case by simp
next
  case (bad_field buf end' it v0 it1 v0' c)
  then show ?case by simp
next
  case (exit buf end' it v0 x)
  then have fc: "field_content buf end' it None = Some (Exit (Line_end it2 a b))"
    and same: "buf' = buf" by simp_all
  from field_content_Exit_None [OF fc] same show ?case by auto
next
  case (line_end buf end' it v0 it1 v0' c2)
  then have res: "buf' = buf" "b = it1"
    "a = (case v0' of None \<Rightarrow> it1 | Some v \<Rightarrow> v)" by simp_all
  from line_end have fc: "field_content buf end' it None = Some (Fall it1 v0')" by simp
  from field_content_Fall_None [OF fc] res show ?case by auto
next
  case (fold buf end' it v0 it1 v0' c2 it2' r)
  let ?b3 = "buf[it1 := SP, it1 + 1 := SP, it1 + 2 := SP]"
  from fold have fc: "field_content buf end' it None = Some (Fall it1 v0')" by simp
  have len: "it1 + 2 < length buf"
    using fold(5) by (auto simp: rd_def split: if_splits)
  have ge: "it1 + 3 \<le> it2'" using fold(7) by (rule set_skip_ge)
  note ws = set_skip_all [OF fold(7)]
  note n = field_value_normalises [OF fold(8) fold.prems(1)]
  have nth': "buf' ! k = ?b3 ! k" if "k < it2'" for k
  proof -
    have "buf' ! k = take it2' buf' ! k" using that by simp
    also have "\<dots> = ?b3 ! k" using n that by simp
    finally show ?thesis .
  qed
  from field_content_Fall_None [OF fc] show ?case
  proof
    assume c: "v0' = None \<and> it1 = it"
    with fold.IH [OF fold.prems(1)] have ih:
      "\<forall>k. it2' \<le> k \<and> k < a \<longrightarrow> ws_contains (buf' ! k)"
      "a < b \<longrightarrow> field_vchar_contains (buf' ! a)"
      by simp_all
    have "ws_contains (buf' ! k)" if k: "it \<le> k \<and> k < a" for k
    proof (cases "it2' \<le> k")
      case True
      with k ih show ?thesis by blast
    next
      case False
      then have lt: "k < it2'" by simp
      show ?thesis
      proof (cases "k < it1 + 3")
        case True
        with k c len have "?b3 ! k = SP" by (auto simp: nth_list_update)
        with nth' [OF lt] show ?thesis by (simp add: ws_contains_def)
      next
        case False
        with lt ws have "ws_contains (?b3 ! k)" by auto
        with nth' [OF lt] show ?thesis by simp
      qed
    qed
    with ih show ?thesis by blast
  next
    assume c: "v0' = Some it \<and> it < it1 \<and> it < length buf \<and> field_vchar_contains (buf ! it)"
    with n have a: "a = it" by simp
    have "it < it2'" using c ge by simp
    from nth' [OF this] c have "buf' ! it = buf ! it" by simp
    with a c show ?thesis by auto
  qed
qed

text \<open>Runs of the scanners over buffers given by their parts.\<close>

lemma rd_append_plus [simp]: "rd (xs @ ys) (length xs + k) = rd ys k"
  by (simp add: rd_def)

lemma rd_append_length [simp]: "rd (xs @ ys) (length xs) = rd ys 0"
  using rd_append_plus [of xs ys 0] by simp

lemma rd_Cons_0 [simp]: "rd (y # ys) 0 = Some y"
  by (simp add: rd_def)

lemma rd_Cons_Suc [simp]: "rd (y # ys) (Suc k) = rd ys k"
  by (simp add: rd_def)

lemma set_skip_over:
  assumes "list_all P s" "\<not> P y" "length pre + length s \<le> e"
  shows "set_skip P (pre @ s @ y # ys) (length pre) e = Some (length pre + length s)"
proof (rule set_skip_run)
  show "length pre \<le> length pre + length s" by simp
  show "length pre + length s \<le> e" by (rule assms(3))
  show "\<forall>k. length pre \<le> k \<and> k < length pre + length s \<longrightarrow>
          k < length (pre @ s @ y # ys) \<and> P ((pre @ s @ y # ys) ! k)"
  proof (intro allI impI)
    fix k assume k: "length pre \<le> k \<and> k < length pre + length s"
    then have "(pre @ s @ y # ys) ! k = s ! (k - length pre)"
      by (auto simp: nth_append)
    moreover have "k - length pre < length s" using k by auto
    then have "P (s ! (k - length pre))"
      using assms(1) by (simp add: list_all_length)
    ultimately show "k < length (pre @ s @ y # ys) \<and> P ((pre @ s @ y # ys) ! k)"
      using k by simp
  qed
  have "(pre @ s @ y # ys) ! (length pre + length s) = y"
    by (simp add: nth_append)
  with assms(2) show "length pre + length s = e \<or>
      (length pre + length s < length (pre @ s @ y # ys) \<and>
       \<not> P ((pre @ s @ y # ys) ! (length pre + length s)))"
    by simp
qed

lemma not_value_byte_CR: "\<not> field_vchar_contains CR" "\<not> ws_contains CR"
  by (simp_all add: field_vchar_contains_def ws_contains_def)

lemma field_vchar_not_ws: "field_vchar_contains c \<Longrightarrow> \<not> ws_contains c"
  by (auto simp: field_vchar_contains_def ws_contains_def)

text \<open>One pass of the first block over a run of field-vchar bytes that ends at a CR.\<close>

lemma field_content_run:
  assumes "list_all field_vchar_contains s" "length pre + length s < end'"
  shows "field_content (pre @ s @ CR # ys) end' (length pre) v0 =
     Some (Fall (length pre + length s)
             (if s = [] then v0 else Some (case v0 of None \<Rightarrow> length pre | Some v \<Rightarrow> v)))"
proof (cases s)
  case Nil
  then show ?thesis by (simp add: field_content_def not_value_byte_CR)
next
  case (Cons x xs)
  with assms have fv: "field_vchar_contains x" "list_all field_vchar_contains xs" by simp_all
  have "set_skip field_vchar_contains ((pre @ [x]) @ xs @ CR # ys) (length (pre @ [x])) end' =
      Some (length (pre @ [x]) + length xs)"
    using fv assms(2) Cons by (intro set_skip_over) (simp_all add: not_value_byte_CR)
  then have sk: "set_skip field_vchar_contains (pre @ x # xs @ CR # ys) (Suc (length pre)) end' =
      Some (Suc (length pre + length xs))"
    by simp
  have r: "rd (pre @ x # xs @ CR # ys) (Suc (length pre + length xs)) = Some CR"
  proof -
    have "rd ((pre @ x # xs) @ CR # ys) (length (pre @ x # xs)) = Some CR"
      by (simp only: rd_append_length rd_Cons_0)
    then show ?thesis by simp
  qed
  from assms(2) Cons have ne: "Suc (length pre + length xs) \<noteq> end'" by simp
  show ?thesis
    unfolding Cons
    by (simp add: field_content_def fv sk r ne not_value_byte_CR)
qed

lemma rd_append2 [simp]: "rd (pre @ s @ ys) (length pre + length s + k) = rd ys k"
proof -
  have "rd ((pre @ s) @ ys) (length (pre @ s) + k) = rd ys k" by (rule rd_append_plus)
  then show ?thesis by simp
qed

lemma rd_append2_0 [simp]: "rd (pre @ s @ ys) (length pre + length s) = rd ys 0"
  using rd_append2 [of pre s ys 0] by simp

lemma blank_fold:
  "(xs @ a # b # c # ys)[length xs := x, length xs + 1 := y, length xs + 2 := z] =
     xs @ x # y # z # ys"
  by (simp add: list_update_append)

text \<open>What follows a fold and its whitespace begins with a byte that is not whitespace.\<close>

lemma remainder_head:
  assumes "list_all piece_ok ps" "list_all field_vchar_contains s_last"
  shows "\<exists>y ys. concat (map piece_bytes ps) @ s_last @ CR # zs = y # ys \<and> \<not> ws_contains y"
proof (cases ps)
  case Nil
  show ?thesis
  proof (cases s_last)
    case Nil
    with \<open>ps = []\<close> show ?thesis by (simp add: not_value_byte_CR)
  next
    case (Cons x xs)
    with assms(2) have "\<not> ws_contains x" by (simp add: field_vchar_not_ws)
    with Cons \<open>ps = []\<close> show ?thesis by simp
  qed
next
  case (Cons pc ps')
  obtain s w t where pc: "pc = (s, w, t)" by (cases pc)
  show ?thesis
  proof (cases s)
    case Nil
    with Cons pc show ?thesis by (simp add: piece_bytes_def not_value_byte_CR)
  next
    case (Cons x xs)
    with assms(1) \<open>ps = pc # ps'\<close> pc have "\<not> ws_contains x"
      by (simp add: piece_ok_def field_vchar_not_ws)
    with Cons \<open>ps = pc # ps'\<close> pc show ?thesis by (simp add: piece_bytes_def)
  qed
qed

lemma length_piece [simp]: "length (piece_flat pc) = length (piece_bytes pc)"
  by (cases pc) (simp add: piece_flat_def piece_bytes_def)

lemma length_concat_pieces [simp]:
  "length (concat (map piece_flat ps)) = length (concat (map piece_bytes ps))"
  by (induction ps) simp_all

lemma field_value_last:
  assumes "list_all field_vchar_contains s_last" "\<not> ws_contains c"
    and "length pre + length s_last < end'"
  shows "field_value (pre @ s_last @ CR # LF # c # rest) end' (length pre) v0 =
     Some (pre @ s_last @ CR # LF # c # rest,
           Line_end (length pre + length s_last + 2)
             (case v0 of
                Some v \<Rightarrow> v
              | None \<Rightarrow> length pre + length (takeWhile ws_contains s_last))
             (length pre + length s_last))"
proof -
  let ?buf = "pre @ s_last @ CR # LF # c # rest"
  have ne: "length pre \<noteq> end'" using assms by simp
  have fc: "field_content ?buf end' (length pre) v0 =
     Some (Fall (length pre + length s_last)
             (if s_last = [] then v0
              else Some (case v0 of None \<Rightarrow> length pre | Some v \<Rightarrow> v)))"
    using assms by (intro field_content_run) simp_all
  have tw: "s_last \<noteq> [] \<Longrightarrow> takeWhile ws_contains s_last = []"
    using assms(1) by (cases s_last) (simp_all add: field_vchar_not_ws)
  have r1: "rd ?buf (length pre + length s_last) = Some CR" by simp
  have r2: "rd ?buf (length pre + length s_last + 1) = Some LF"
    using rd_append2 [of pre s_last "CR # LF # c # rest" 1] by simp
  have r3: "rd ?buf (length pre + length s_last + 2) = Some c"
    using rd_append2 [of pre s_last "CR # LF # c # rest" 2] by (simp add: numeral_2_eq_2)
  show ?thesis
    apply (subst field_value.simps)
    apply (simp only: ne fc if_False option.case content_step.case r1 r2 r3 if_True simp_thms assms(2))
    apply (simp add: tw split: option.splits)
    done
qed

lemma field_value_fold_step:
  assumes "list_all field_vchar_contains s" "ws_contains w" "list_all ws_contains t"
    and "\<not> ws_contains y"
    and "length pre + length s + 3 + length t < end'"
  shows "field_value (pre @ s @ CR # LF # w # t @ y # ys) end' (length pre) v0 =
         field_value (pre @ s @ SP # SP # SP # t @ y # ys) end'
           (length pre + length s + 3 + length t)
           (if s = [] then v0 else Some (case v0 of None \<Rightarrow> length pre | Some v \<Rightarrow> v))"
proof -
  let ?buf = "pre @ s @ CR # LF # w # t @ y # ys"
  let ?buf3 = "pre @ s @ SP # SP # SP # t @ y # ys"
  let ?it1 = "length pre + length s"
  let ?it2 = "length pre + length s + 3 + length t"
  let ?v0' = "if s = [] then v0 else Some (case v0 of None \<Rightarrow> length pre | Some v \<Rightarrow> v)"
  have ne: "length pre \<noteq> end'" using assms(5) by simp
  have fc: "field_content ?buf end' (length pre) v0 = Some (Fall ?it1 ?v0')"
    using assms by (intro field_content_run) simp_all
  have upd: "?buf[?it1 := SP, ?it1 + 1 := SP, ?it1 + 2 := SP] = ?buf3"
    using blank_fold [of "pre @ s" CR LF w "t @ y # ys" SP SP SP] by simp
  have sk: "set_skip ws_contains ?buf3 (?it1 + 3) end' = Some ?it2"
  proof -
    have "set_skip ws_contains ((pre @ s @ [SP, SP, SP]) @ t @ y # ys)
        (length (pre @ s @ [SP, SP, SP])) end' =
      Some (length (pre @ s @ [SP, SP, SP]) + length t)"
      using assms by (intro set_skip_over) simp_all
    then show ?thesis by (simp add: numeral_3_eq_3)
  qed
  have r1: "rd ?buf ?it1 = Some CR" by simp
  have r2: "rd ?buf (?it1 + 1) = Some LF"
    using rd_append2 [of pre s "CR # LF # w # t @ y # ys" 1] by simp
  have r3: "rd ?buf (?it1 + 2) = Some w"
    using rd_append2 [of pre s "CR # LF # w # t @ y # ys" 2] by (simp add: numeral_2_eq_2)
  show ?thesis
    apply (subst field_value.simps)
    apply (simp only: ne fc if_False option.case content_step.case r1 r2 r3 if_True simp_thms
        assms(2) upd sk)
    done
qed

lemma piece_bytes_triple: "piece_bytes (s, w, t) = s @ CR # LF # w # t"
  by (simp add: piece_bytes_def)

lemma piece_flat_triple: "piece_flat (s, w, t) = s @ SP # SP # SP # t"
  by (simp add: piece_flat_def)

lemma piece_ok_triple:
  "piece_ok (s, w, t) =
     (list_all field_vchar_contains s \<and> ws_contains w \<and> list_all ws_contains t)"
  by (simp add: piece_ok_def)

lemma field_value_pieces:
  assumes "list_all piece_ok ps" "list_all field_vchar_contains s_last" "\<not> ws_contains c"
    and "length pre + length (concat (map piece_bytes ps)) + length s_last < end'"
  shows "field_value (pre @ concat (map piece_bytes ps) @ s_last @ CR # LF # c # rest) end'
           (length pre) v0 =
     Some (pre @ concat (map piece_flat ps) @ s_last @ CR # LF # c # rest,
           Line_end (length pre + length (concat (map piece_bytes ps)) + length s_last + 2)
             (case v0 of
                Some v \<Rightarrow> v
              | None \<Rightarrow> length pre +
                  length (takeWhile ws_contains (concat (map piece_flat ps) @ s_last)))
             (length pre + length (concat (map piece_bytes ps)) + length s_last))"
  using assms
proof (induction ps arbitrary: pre v0)
  case Nil
  then show ?case using field_value_last [of s_last c pre end' rest v0]
    by (simp split: option.splits)
next
  case (Cons pc ps)
  obtain s w t where pc: "pc = (s, w, t)" by (cases pc)
  from Cons.prems(1) pc have pok: "piece_ok (s, w, t)" and oks: "list_all piece_ok ps"
    by simp_all
  from pok oks have ok: "list_all field_vchar_contains s" "ws_contains w"
    "list_all ws_contains t" "list_all piece_ok ps"
    by (simp_all add: piece_ok_triple)
  let ?B = "concat (map piece_bytes ps)"
  let ?F = "concat (map piece_flat ps)"
  let ?tl = "s_last @ CR # LF # c # rest"
  let ?pre' = "pre @ s @ SP # SP # SP # t"
  let ?v0' = "if s = [] then v0 else Some (case v0 of None \<Rightarrow> length pre | Some v \<Rightarrow> v)"
  have lens: "length pre + length s + 3 + length t + length ?B + length s_last < end'"
    using Cons.prems(4) pc by (simp add: piece_bytes_triple)
  obtain y ys where R: "?B @ s_last @ CR # LF # c # rest = y # ys"
    and y: "\<not> ws_contains y"
    using remainder_head [OF ok(4) Cons.prems(2)] by blast
  have step: "field_value (pre @ s @ CR # LF # w # t @ y # ys) end' (length pre) v0 =
      field_value (pre @ s @ SP # SP # SP # t @ y # ys) end'
        (length pre + length s + 3 + length t) ?v0'"
    using ok(1,2,3) y lens by (intro field_value_fold_step) simp_all
  have rec: "field_value (?pre' @ ?B @ ?tl) end' (length ?pre') ?v0' =
     Some (?pre' @ ?F @ ?tl,
           Line_end (length ?pre' + length ?B + length s_last + 2)
             (case ?v0' of
                Some v \<Rightarrow> v
              | None \<Rightarrow> length ?pre' + length (takeWhile ws_contains (?F @ s_last)))
             (length ?pre' + length ?B + length s_last))"
    using ok(4) Cons.prems(2,3) lens by (intro Cons.IH) simp_all
  have len': "length ?pre' = length pre + length s + 3 + length t" by simp
  have bufeq: "pre @ concat (map piece_bytes (pc # ps)) @ ?tl =
      pre @ s @ CR # LF # w # t @ y # ys"
    using R by (simp add: pc piece_bytes_triple)
  have buf3eq: "?pre' @ ?B @ ?tl = pre @ s @ SP # SP # SP # t @ y # ys"
    using R by simp
  have flateq: "pre @ concat (map piece_flat (pc # ps)) @ ?tl = ?pre' @ ?F @ ?tl"
    by (simp add: pc piece_flat_triple)
  have leneq: "length pre + length (concat (map piece_bytes (pc # ps))) + length s_last =
      length ?pre' + length ?B + length s_last"
    by (simp add: pc piece_bytes_triple)
  have ws_SP: "ws_contains SP" by (simp add: ws_contains_def)
  have tw_ws: "takeWhile ws_contains (t @ zs) = t @ takeWhile ws_contains zs" for zs
    using ok(3) by (simp add: takeWhile_append2 list_all_iff)
  have tw_fv: "s \<noteq> [] \<Longrightarrow> takeWhile ws_contains (s @ zs) = []" for zs
    using ok(1) by (cases s) (simp_all add: field_vchar_not_ws)
  have aeq: "(case v0 of
                Some v \<Rightarrow> v
              | None \<Rightarrow> length pre +
                  length (takeWhile ws_contains (concat (map piece_flat (pc # ps)) @ s_last))) =
             (case ?v0' of
                Some v \<Rightarrow> v
              | None \<Rightarrow> length ?pre' + length (takeWhile ws_contains (?F @ s_last)))"
  proof (cases "s = []")
    case True
    then show ?thesis
      by (simp add: pc piece_flat_triple tw_ws ws_SP split: option.splits)
  next
    case False
    then show ?thesis
      using tw_fv [OF False]
      by (simp add: pc piece_flat_triple split: option.splits)
  qed
  show ?case
    unfolding bufeq flateq leneq aeq
    using step rec unfolding buf3eq len' by simp
qed

lemma tchar_not_colon: "\<not> tchar_contains (CHR '':'')"
  by (simp add: tchar_contains_def is_digit_def is_alpha_def)

lemma slice_middle: "slice (xs @ ys @ zs) (length xs) (length xs + length ys) = ys"
  by (simp add: slice_def)

lemma slice_dropWhile:
  "slice (xs @ ys @ zs) (length xs + length (takeWhile P ys)) (length xs + length ys) =
     dropWhile P ys"
proof -
  have "drop (length (takeWhile P ys)) ys = dropWhile P ys"
    by (metis append_eq_conv_conj takeWhile_dropWhile_id)
  moreover have "length ys - length (takeWhile P ys) = length (dropWhile P ys)"
    by (metis add_diff_cancel_left' length_append takeWhile_dropWhile_id)
  moreover have "length (takeWhile P ys) \<le> length ys"
    by (rule length_takeWhile_le)
  ultimately show ?thesis by (simp add: slice_def)
qed

lemma parse_field_folded:
  assumes name: "name \<noteq> []" "list_all tchar_contains name"
    and ows: "list_all ws_contains ows"
    and ps: "list_all piece_ok ps"
    and s_last: "list_all field_vchar_contains s_last"
    and c: "\<not> ws_contains c"
    and room: "length pre + length name + 1 + length ows +
        length (concat (map piece_bytes ps)) + length s_last + 4 \<le> end0"
  shows "parse_field
       (pre @ name @ CHR '':'' # ows @ concat (map piece_bytes ps) @ s_last @ CR # LF # c # rest)
       (length pre) end0 =
     Some (pre @ name @ CHR '':'' # ows @ concat (map piece_flat ps) @ s_last @
             CR # LF # c # rest,
           length pre + length name + 1 + length ows +
             length (concat (map piece_bytes ps)) + length s_last + 2,
           None,
           Some (name, dropWhile ws_contains (concat (map piece_flat ps) @ s_last)))"
proof -
  let ?B = "concat (map piece_bytes ps)"
  let ?F = "concat (map piece_flat ps)"
  let ?tl = "s_last @ CR # LF # c # rest"
  let ?buf = "pre @ name @ CHR '':'' # ows @ ?B @ ?tl"
  let ?buf' = "pre @ name @ CHR '':'' # ows @ ?F @ ?tl"
  let ?e = "end0 - 3"
  let ?pre1 = "pre @ name @ CHR '':'' # ows"
  have p1: "length pre \<noteq> end0" "\<not> int end0 - int (length pre) < 3"
    using room by simp_all
  have sk0: "set_skip tchar_contains ?buf (length pre) ?e = Some (length pre + length name)"
    using name(2) room by (intro set_skip_over) (simp_all add: tchar_not_colon)
  have ne0: "length pre + length name \<noteq> ?e" using room by simp
  have r0: "rd ?buf (length pre + length name) = Some (CHR '':'')"
    using rd_append2_0 [of pre name "CHR '':'' # ows @ ?B @ ?tl"] by simp
  have ne1: "length pre + length name \<noteq> length pre" using name(1) by simp
  obtain y ys where R: "?B @ s_last @ CR # LF # c # rest = y # ys" and y: "\<not> ws_contains y"
    using remainder_head [OF ps s_last] by blast
  have sk1: "set_skip ws_contains ?buf (length pre + length name + 1) ?e =
      Some (length ?pre1)"
  proof -
    have "set_skip ws_contains ((pre @ name @ [CHR '':'']) @ ows @ y # ys)
        (length (pre @ name @ [CHR '':''])) ?e =
      Some (length (pre @ name @ [CHR '':'']) + length ows)"
      using ows y room by (intro set_skip_over) simp_all
    then show ?thesis by (simp add: R)
  qed
  have fv: "field_value (?pre1 @ ?B @ ?tl) ?e (length ?pre1) None =
     Some (?pre1 @ ?F @ ?tl,
           Line_end (length ?pre1 + length ?B + length s_last + 2)
             (case None :: nat option of
                Some v \<Rightarrow> v
              | None \<Rightarrow> length ?pre1 + length (takeWhile ws_contains (?F @ s_last)))
             (length ?pre1 + length ?B + length s_last))"
    using ps s_last c room by (intro field_value_pieces) simp_all
  have fv': "field_value ?buf ?e (length ?pre1) None =
     Some (?buf',
           Line_end (length ?pre1 + length ?B + length s_last + 2)
             (length ?pre1 + length (takeWhile ws_contains (?F @ s_last)))
             (length ?pre1 + length ?B + length s_last))"
    using fv by simp
  have k: "slice ?buf' (length pre) (length pre + length name) = name"
    by (rule slice_middle)
  have v: "slice ?buf' (length ?pre1 + length (takeWhile ws_contains (?F @ s_last)))
      (length ?pre1 + length ?B + length s_last) =
     dropWhile ws_contains (?F @ s_last)"
    using slice_dropWhile [of ?pre1 "?F @ s_last" "CR # LF # c # rest" ws_contains]
    by (simp add: add.assoc)
  have len1: "length ?pre1 + length ?B + length s_last + 2 =
      length pre + length name + 1 + length ows + length ?B + length s_last + 2"
    by simp
  show ?thesis
    unfolding parse_field_def
    apply (simp only: p1 sk0 ne0 r0 ne1 sk1 fv' k v len1 Let_def bind.simps simp_thms if_False
        if_True prod.case value_exit.case field_dispatch_same option.case)
    done
qed

lemma all_slice:
  assumes "j \<le> length buf" and "\<forall>k. i \<le> k \<and> k < j \<longrightarrow> P (buf ! k)"
  shows "\<forall>c \<in> set (slice buf i j). P c"
proof
  fix c assume "c \<in> set (slice buf i j)"
  from set_slice [OF assms(1) this] assms(2) show "P c" by auto
qed

lemma dropWhile_prefix:
  assumes "\<forall>c \<in> set xs. P c" and "ys = [] \<or> \<not> P (hd ys)"
  shows "dropWhile P (xs @ ys) = ys"
proof -
  have "dropWhile P (xs @ ys) = dropWhile P ys"
    using assms(1) by (simp add: dropWhile_append2)
  also have "\<dots> = ys" using assms(2) by (cases ys) auto
  finally show ?thesis .
qed

lemma slice_take: "j \<le> n \<Longrightarrow> slice (take n xs) i j = slice xs i j"
proof -
  assume "j \<le> n"
  then have "min (j - i) (n - i) = j - i" by simp
  then show ?thesis by (simp add: slice_def drop_take)
qed

lemma parse_field_complete_line:
  assumes "parse_field buf start end0 = Some (buf', it, None, fld)"
  shows "buf' = take start buf @ unfold_obs (slice buf start it) @ drop it buf \<and>
         fld = Some (line_name buf start, line_value buf' start it)"
proof -
  let ?e = "end0 - 3"
  from assms have pre: "start \<noteq> end0" "\<not> int end0 - int start < 3"
    by (auto simp: parse_field_def split: if_splits)
  with assms obtain it0 where it0: "set_skip tchar_contains buf start ?e = Some it0"
    by (auto simp: parse_field_def Let_def split: bind_splits)
  from assms pre it0 have ne: "it0 \<noteq> ?e"
    by (auto simp: parse_field_def Let_def)
  with assms pre it0 obtain c where c: "rd buf it0 = Some c"
    by (auto simp: parse_field_def Let_def split: bind_splits)
  from assms pre it0 ne c have colon: "c = CHR '':''" "it0 \<noteq> start"
    by (auto simp: parse_field_def Let_def split: if_splits)
  with assms pre it0 ne c obtain it1 r where
    it1: "set_skip ws_contains buf (it0 + 1) ?e = Some it1" and
    r: "field_value buf ?e it1 None = Some r"
    by (auto simp: parse_field_def Let_def split: bind_splits)
  obtain b0 x where rx: "r = (b0, x)" by (cases r)
  from assms pre it0 ne c colon it1 r rx obtain a b where
    x: "x = Line_end it a b" and b0: "b0 = buf'" and
    fld: "fld = Some (slice buf' start it0, slice buf' a b)"
    by (cases x) (auto simp: parse_field_def Let_def)
  from field_value_normalises [OF r rx [unfolded x b0]] have n:
    "it1 \<le> b" "it = b + 2" "it < length buf" "length buf' = length buf"
    "take it1 buf' = take it1 buf"
    "drop it1 buf' = unfold_obs (slice buf it1 it) @ drop it buf"
    "\<forall>k. it1 \<le> k \<and> k < b \<longrightarrow> field_vchar_contains (buf' ! k) \<or> ws_contains (buf' ! k)"
    "it1 \<le> a" "a \<le> b"
    by simp_all
  from field_value_value_start [OF r rx [unfolded x b0] refl] have vs:
    "\<forall>k. it1 \<le> k \<and> k < a \<longrightarrow> ws_contains (buf' ! k)"
    "a < b \<longrightarrow> field_vchar_contains (buf' ! a)"
    by simp_all
  have ge0: "start \<le> it0" using it0 by (rule set_skip_ge)
  have ge1: "it0 + 1 \<le> it1" using it1 by (rule set_skip_ge)
  have c0: "buf ! it0 = CHR '':''" "it0 < length buf"
    using c colon by (auto simp: rd_def split: if_splits)
  have nocr: "\<forall>k. start \<le> k \<and> k < it1 \<longrightarrow> buf ! k \<noteq> CR"
  proof (intro allI impI)
    fix k assume k: "start \<le> k \<and> k < it1"
    consider "k < it0" | "k = it0" | "it0 + 1 \<le> k" by linarith
    then show "buf ! k \<noteq> CR"
    proof cases
      case 1
      with k set_skip_all [OF it0] have "tchar_contains (buf ! k)" by blast
      then show ?thesis by (rule tchar_not_CR)
    next
      case 2
      with c0 show ?thesis by simp
    next
      case 3
      with k set_skip_all [OF it1] have "ws_contains (buf ! k)" by blast
      then show ?thesis using value_byte_not_CRLF by blast
    qed
  qed
  have le: "start \<le> it1" "it1 \<le> it" "it \<le> length buf"
    using ge0 ge1 n by auto
  have n1: "CR \<notin> set (slice buf start it1)"
    using le nocr by (intro no_CR_slice) auto
  have e1: "take it1 buf = take start buf @ slice buf start it1"
    using le(1) by (rule take_slice)
  have e2: "slice buf start it = slice buf start it1 @ slice buf it1 it"
    using le(1) le(2) by (rule slice_split)
  have e3: "unfold_obs (slice buf start it) = slice buf start it1 @ unfold_obs (slice buf it1 it)"
    unfolding e2 using n1 by (rule unfold_obs_no_CR)
  have "buf' = take it1 buf' @ drop it1 buf'" by simp
  also have "\<dots> = take it1 buf @ unfold_obs (slice buf it1 it) @ drop it buf"
    unfolding n(5) n(6) ..
  also have "\<dots> = take start buf @ unfold_obs (slice buf start it) @ drop it buf"
    unfolding e1 e3 by simp
  finally have whole: "buf' = take start buf @ unfold_obs (slice buf start it) @ drop it buf" .
  text \<open>The bytes before the value are those of the input.\<close>
  have same: "buf' ! k = buf ! k" if "k < it1" for k
  proof -
    have "buf' ! k = take it1 buf' ! k" using that by simp
    also have "\<dots> = take it1 buf ! k" by (simp only: n(5))
    also have "\<dots> = buf ! k" using that by simp
    finally show ?thesis .
  qed
  have sl_same: "slice buf' i j = slice buf i j" if "j \<le> it1" for i j
  proof -
    have "slice buf' i j = slice (take it1 buf') i j"
      using that by (simp add: slice_take)
    also have "\<dots> = slice (take it1 buf) i j" by (simp only: n(5))
    also have "\<dots> = slice buf i j"
      using that by (simp add: slice_take)
    finally show ?thesis .
  qed
  text \<open>The name.\<close>
  have tc: "\<forall>c \<in> set (slice buf start it0). tchar_contains c"
    using set_skip_all [OF it0] c0(2) by (intro all_slice) auto
  have d0: "drop it0 buf = CHR '':'' # drop (Suc it0) buf"
    using c0 by (metis Cons_nth_drop_Suc)
  have "drop start buf = slice buf start it0 @ drop it0 buf"
    using ge0 by (simp add: slice_drop)
  then have "line_name buf start = slice buf start it0"
    unfolding line_name_def using tc by (simp add: d0 takeWhile_append2 tchar_not_colon)
  moreover have "slice buf' start it0 = slice buf start it0"
    using ge1 by (intro sl_same) simp
  ultimately have name: "slice buf' start it0 = line_name buf start" by simp
  have "slice buf' start it0 = line_name buf' start"
  proof -
    have "drop start buf' = slice buf' start it0 @ drop it0 buf'"
      using ge0 by (simp add: slice_drop)
    moreover have "drop it0 buf' = CHR '':'' # drop (Suc it0) buf'"
      using c0 n(4) same [of it0] ge1 by (metis Cons_nth_drop_Suc Suc_eq_plus1 Suc_le_lessD)
    moreover have "\<forall>c \<in> set (slice buf' start it0). tchar_contains c"
      using tc \<open>slice buf' start it0 = slice buf start it0\<close> by simp
    ultimately show ?thesis
      unfolding line_name_def by (simp add: takeWhile_append2 tchar_not_colon)
  qed
  with name have name': "line_name buf' start = line_name buf start" by simp
  have ln: "length (line_name buf start) = it0 - start"
    using name [symmetric] c0(2) n(4) by (simp add: length_slice)
  text \<open>The value.\<close>
  have bl: "b \<le> length buf'" using n by simp
  have al: "a \<le> length buf'" using n by simp
  have wsb: "\<forall>k. it0 + 1 \<le> k \<and> k < a \<longrightarrow> ws_contains (buf' ! k)"
  proof (intro allI impI)
    fix k assume k: "it0 + 1 \<le> k \<and> k < a"
    show "ws_contains (buf' ! k)"
    proof (cases "k < it1")
      case True
      with k set_skip_all [OF it1] have "ws_contains (buf ! k)" by blast
      with same [OF True] show ?thesis by simp
    next
      case False
      with k vs(1) show ?thesis by simp
    qed
  qed
  have w1: "\<forall>c \<in> set (slice buf' (it0 + 1) a). ws_contains c"
    using al wsb by (rule all_slice)
  have w2: "slice buf' a b = [] \<or> \<not> ws_contains (hd (slice buf' a b))"
  proof (cases "a < b")
    case True
    then have "hd (slice buf' a b) = buf' ! a"
      using bl by (simp add: slice_def hd_conv_nth nth_take hd_drop_conv_nth)
    with True vs(2) show ?thesis by (simp add: field_vchar_not_ws)
  next
    case False
    then show ?thesis by (simp add: slice_def)
  qed
  have sp: "slice buf' (it0 + 1) b = slice buf' (it0 + 1) a @ slice buf' a b"
    using ge1 n(8) n(9) by (intro slice_split) simp_all
  have "line_value buf' start it = dropWhile ws_contains (slice buf' (it0 + 1) b)"
    unfolding line_value_def name' ln using ge0 n(2) by simp
  also have "\<dots> = slice buf' a b"
    unfolding sp using w1 w2 by (rule dropWhile_prefix)
  finally have "slice buf' a b = line_value buf' start it" by simp
  with fld name whole show ?thesis by simp
qed

lemma remainder_head_tail:
  assumes "list_all piece_ok ps" "\<not> ws_contains y0"
  shows "\<exists>y ys. concat (map piece_bytes ps) @ y0 # ys0 = y # ys \<and> \<not> ws_contains y"
proof (cases ps)
  case Nil
  with assms(2) show ?thesis by simp
next
  case (Cons pc ps')
  obtain s w t where pc: "pc = (s, w, t)" by (cases pc)
  show ?thesis
  proof (cases s)
    case Nil
    with Cons pc show ?thesis by (simp add: piece_bytes_triple not_value_byte_CR)
  next
    case (Cons x xs)
    with assms(1) \<open>ps = pc # ps'\<close> pc have "\<not> ws_contains x"
      by (simp add: piece_ok_triple field_vchar_not_ws)
    with Cons \<open>ps = pc # ps'\<close> pc show ?thesis by (simp add: piece_bytes_triple)
  qed
qed

lemma ws_not_field_vchar: "ws_contains c \<Longrightarrow> \<not> field_vchar_contains c"
  using field_vchar_not_ws by blast

text \<open>
  One pass of the first block over field content that is followed by whitespace and
  then by an obs-fold.
\<close>

lemma field_content_space_fold:
  assumes "list_all field_vchar_contains xs" "field_vchar_contains x"
    and "ws_contains u" "list_all ws_contains t" "ws_contains w"
    and "length pre + length xs + 2 + length t \<le> end'"
  shows "field_content (pre @ x # xs @ u # t @ CR # LF # w # rest) end' (length pre) v0 =
     Some (Exit (Stop bad_value))"
proof -
  let ?buf = "pre @ x # xs @ u # t @ CR # LF # w # rest"
  let ?it1 = "Suc (length pre + length xs)"
  let ?it2 = "Suc (Suc (length pre + length xs + length t))"
  have r0: "rd ?buf (length pre) = Some x" by simp
  have "set_skip field_vchar_contains ((pre @ [x]) @ xs @ u # t @ CR # LF # w # rest)
      (length (pre @ [x])) end' = Some (length (pre @ [x]) + length xs)"
    using assms by (intro set_skip_over) (simp_all add: ws_not_field_vchar)
  then have sk1: "set_skip field_vchar_contains ?buf (Suc (length pre)) end' = Some ?it1"
    by simp
  have ne: "?it1 \<noteq> end'" using assms(6) by simp
  have r1: "rd ?buf ?it1 = Some u"
  proof -
    have "rd ((pre @ x # xs) @ u # t @ CR # LF # w # rest) (length (pre @ x # xs)) = Some u"
      by (simp only: rd_append_length rd_Cons_0)
    then show ?thesis by simp
  qed
  have "set_skip ws_contains ((pre @ x # xs) @ (u # t) @ CR # LF # w # rest)
      (length (pre @ x # xs)) end' = Some (length (pre @ x # xs) + length (u # t))"
    using assms by (intro set_skip_over) (simp_all add: not_value_byte_CR)
  then have sk2: "set_skip ws_contains ?buf ?it1 end' = Some ?it2" by simp
  have r2: "rd ?buf (?it2 + k) = rd (CR # LF # w # rest) k" for k
  proof -
    have "rd ((pre @ x # xs @ u # t) @ CR # LF # w # rest) (length (pre @ x # xs @ u # t) + k) =
        rd (CR # LF # w # rest) k"
      by (simp only: rd_append_plus)
    then show ?thesis by (simp add: add.assoc)
  qed
  have r20: "rd ?buf ?it2 = Some CR" using r2 [of 0] by simp
  have r21: "rd ?buf (Suc ?it2) = Some LF" using r2 [of 1] by simp
  have r22: "rd ?buf (Suc (Suc ?it2)) = Some w" using r2 [of 2] by (simp add: numeral_2_eq_2)
  show ?thesis
    unfolding field_content_def
    by (simp add: r0 assms(2,3,5) sk1 ne r1 sk2 r20 r21 r22 Let_def del: rd_append_plus
          rd_append_length rd_append2 rd_append2_0)
qed

lemma field_value_space_fold:
  assumes "list_all piece_ok ps"
    and "s \<noteq> []" "list_all field_vchar_contains s"
    and "ws_contains u" "list_all ws_contains t" "ws_contains w"
    and "length pre + length (concat (map piece_bytes ps)) + length s + 1 + length t \<le> end'"
  shows "field_value (pre @ concat (map piece_bytes ps) @ s @ u # t @ CR # LF # w # rest) end'
           (length pre) v0 =
     Some (pre @ concat (map piece_flat ps) @ s @ u # t @ CR # LF # w # rest, Stop bad_value)"
  using assms
proof (induction ps arbitrary: pre v0)
  case Nil
  from Nil.prems(2,3) obtain x xs where s: "s = x # xs" and
    fv: "field_vchar_contains x" "list_all field_vchar_contains xs"
    by (cases s) simp_all
  have ne: "length pre \<noteq> end'" using Nil.prems(7) s by simp
  have fc: "field_content (pre @ x # xs @ u # t @ CR # LF # w # rest) end' (length pre) v0 =
      Some (Exit (Stop bad_value))"
    using fv Nil.prems s by (intro field_content_space_fold) simp_all
  show ?case
    apply (simp only: s list.map concat.simps append_Nil append_Cons)
    apply (subst field_value.simps)
    apply (simp only: ne fc if_False option.case content_step.case)
    done
next
  case (Cons pc ps)
  obtain s1 w1 t1 where pc: "pc = (s1, w1, t1)" by (cases pc)
  from Cons.prems(1) pc have pok: "piece_ok (s1, w1, t1)" and oks: "list_all piece_ok ps"
    by simp_all
  from pok have ok: "list_all field_vchar_contains s1" "ws_contains w1"
    "list_all ws_contains t1"
    by (simp_all add: piece_ok_triple)
  let ?B = "concat (map piece_bytes ps)"
  let ?F = "concat (map piece_flat ps)"
  let ?tl = "s @ u # t @ CR # LF # w # rest"
  let ?pre' = "pre @ s1 @ SP # SP # SP # t1"
  let ?v0' = "if s1 = [] then v0 else Some (case v0 of None \<Rightarrow> length pre | Some v \<Rightarrow> v)"
  have lens: "length pre + length s1 + 3 + length t1 + length ?B + length s + 1 + length t \<le> end'"
    using Cons.prems(7) pc by (simp add: piece_bytes_triple)
  from Cons.prems(2,3) obtain x xs where s: "s = x # xs" and x: "\<not> ws_contains x"
    by (cases s) (simp_all add: field_vchar_not_ws)
  obtain y ys where R: "?B @ ?tl = y # ys" and y: "\<not> ws_contains y"
    using remainder_head_tail [OF oks x, of "xs @ u # t @ CR # LF # w # rest"] s by auto
  have step: "field_value (pre @ s1 @ CR # LF # w1 # t1 @ y # ys) end' (length pre) v0 =
      field_value (pre @ s1 @ SP # SP # SP # t1 @ y # ys) end'
        (length pre + length s1 + 3 + length t1) ?v0'"
    using ok y lens s by (intro field_value_fold_step) simp_all
  have rec: "field_value (?pre' @ ?B @ ?tl) end' (length ?pre') ?v0' =
     Some (?pre' @ ?F @ ?tl, Stop bad_value)"
    using oks Cons.prems(2-6) lens by (intro Cons.IH) simp_all
  have len': "length ?pre' = length pre + length s1 + 3 + length t1" by simp
  have bufeq: "pre @ concat (map piece_bytes (pc # ps)) @ ?tl =
      pre @ s1 @ CR # LF # w1 # t1 @ y # ys"
    using R by (simp add: pc piece_bytes_triple)
  have buf3eq: "?pre' @ ?B @ ?tl = pre @ s1 @ SP # SP # SP # t1 @ y # ys"
    using R by simp
  have flateq: "pre @ concat (map piece_flat (pc # ps)) @ ?tl = ?pre' @ ?F @ ?tl"
    by (simp add: pc piece_flat_triple)
  show ?case
    unfolding bufeq flateq
    using step rec unfolding buf3eq len' by simp
qed

lemma parse_field_space_fold:
  assumes name: "name \<noteq> []" "list_all tchar_contains name"
    and ows: "list_all ws_contains ows"
    and ps: "list_all piece_ok ps"
    and s: "s \<noteq> []" "list_all field_vchar_contains s"
    and ws: "ws_contains u" "list_all ws_contains t" "ws_contains w"
    and room: "length pre + length name + 1 + length ows +
        length (concat (map piece_bytes ps)) + length s + 1 + length t + 3 \<le> end0"
  shows "parse_field
       (pre @ name @ CHR '':'' # ows @ concat (map piece_bytes ps) @ s @ u # t @
          CR # LF # w # rest)
       (length pre) end0 =
     Some (pre @ name @ CHR '':'' # ows @ concat (map piece_flat ps) @ s @ u # t @
             CR # LF # w # rest,
           length pre, Some bad_value, None)"
proof -
  let ?B = "concat (map piece_bytes ps)"
  let ?F = "concat (map piece_flat ps)"
  let ?tl = "s @ u # t @ CR # LF # w # rest"
  let ?buf = "pre @ name @ CHR '':'' # ows @ ?B @ ?tl"
  let ?buf' = "pre @ name @ CHR '':'' # ows @ ?F @ ?tl"
  let ?e = "end0 - 3"
  let ?pre1 = "pre @ name @ CHR '':'' # ows"
  have p1: "length pre \<noteq> end0" "\<not> int end0 - int (length pre) < 3"
    using room by simp_all
  have sk0: "set_skip tchar_contains ?buf (length pre) ?e = Some (length pre + length name)"
    using name(2) room by (intro set_skip_over) (simp_all add: tchar_not_colon)
  have ne0: "length pre + length name \<noteq> ?e" using room by simp
  have r0: "rd ?buf (length pre + length name) = Some (CHR '':'')"
    using rd_append2_0 [of pre name "CHR '':'' # ows @ ?B @ ?tl"] by simp
  have ne1: "length pre + length name \<noteq> length pre" using name(1) by simp
  from s obtain x xs where sx: "s = x # xs" and x: "\<not> ws_contains x"
    by (cases s) (simp_all add: field_vchar_not_ws)
  obtain y ys where R: "?B @ ?tl = y # ys" and y: "\<not> ws_contains y"
    using remainder_head_tail [OF ps x, of "xs @ u # t @ CR # LF # w # rest"] sx by auto
  have sk1: "set_skip ws_contains ?buf (length pre + length name + 1) ?e =
      Some (length ?pre1)"
  proof -
    have "set_skip ws_contains ((pre @ name @ [CHR '':'']) @ ows @ y # ys)
        (length (pre @ name @ [CHR '':''])) ?e =
      Some (length (pre @ name @ [CHR '':'']) + length ows)"
      using ows y room by (intro set_skip_over) simp_all
    then show ?thesis by (simp add: R)
  qed
  have fv: "field_value (?pre1 @ ?B @ ?tl) ?e (length ?pre1) None =
     Some (?pre1 @ ?F @ ?tl, Stop bad_value)"
    using ps s ws room by (intro field_value_space_fold) simp_all
  have fv': "field_value ?buf ?e (length ?pre1) None = Some (?buf', Stop bad_value)"
    using fv by simp
  show ?thesis
    unfolding parse_field_def
    apply (simp only: p1 sk0 ne0 r0 ne1 sk1 fv' Let_def bind.simps simp_thms if_False
        if_True prod.case value_exit.case option.case)
    done
qed

declare rd_append_plus [simp del] rd_append_length [simp del] rd_Cons_0 [simp del]
  rd_Cons_Suc [simp del] rd_append2 [simp del] rd_append2_0 [simp del]
  length_piece [simp del] length_concat_pieces [simp del]

lemma header_fields_error_state:
  "header_fields p first last' = Some (p', ec) \<Longrightarrow> ec \<noteq> None \<Longrightarrow> state p' = state p"
  using header_fields_result [of p first last' p' ec] by auto

section \<open>Properties\<close>

text \<open>Evaluation of \<open>parse_header\<close> on the request of 8223 bytes.\<close>

lemma lh_len: "length long_header = 8223"
  by (simp add: long_header_def)

lemma lh_nth_a: "19 \<le> k \<Longrightarrow> k < 8219 \<Longrightarrow> (long_header @ rest) ! k = CHR ''a''"
  by (simp add: long_header_def nth_append)

lemma lh_skip: "set_skip field_vchar_contains (long_header @ rest) 20 8220 = Some 8219"
proof (rule set_skip_run)
  show "\<forall>k. 20 \<le> k \<and> k < 8219 \<longrightarrow>
          k < length (long_header @ rest) \<and> field_vchar_contains ((long_header @ rest) ! k)"
    by (simp add: lh_nth_a lh_len field_vchar_contains_def)
  show "8219 = 8220 \<or> (8219 < length (long_header @ rest) \<and>
          \<not> field_vchar_contains ((long_header @ rest) ! 8219))"
    by (simp add: lh_len) (simp add: long_header_def nth_append field_vchar_contains_def)
qed simp_all

lemma lh_prefix:
  "long_header @ rest =
     ''GET / HTTP/1.1'' @ [CR, LF] @ ''X: '' @ (replicate 8200 (CHR ''a'') @ [CR, LF, CR, LF] @ rest)"
  by (simp add: long_header_def)

lemma lh_start_line:
  "request_start_line
     (basic_parser_init\<lparr>buffer := Some (long_header @ rest), capacity := c, committed := 8223,
        state := start_line\<rparr>) 0 8223 =
   Some (basic_parser_init\<lparr>buffer := Some (long_header @ rest), capacity := c,
           committed := 8223, state := start_line, version := Some 1\<rparr>, 16, None)"
  unfolding lh_prefix
  by (simp add: request_start_line_def parse_version_def set_skip.simps rd_def slice_def
        ctype_defs nth_append basic_parser_init_def)

lemma lh_name: "set_skip tchar_contains (long_header @ rest) 16 8220 = Some 17"
  unfolding lh_prefix
  by (simp add: set_skip.simps ctype_defs nth_append)

lemma lh_ows: "set_skip ws_contains (long_header @ rest) 18 8220 = Some 19"
  unfolding lh_prefix
  by (simp add: set_skip.simps ctype_defs nth_append)

lemma lh_tail:
  "(long_header @ rest) ! 8219 = CR" "(long_header @ rest) ! 8220 = LF"
  "(long_header @ rest) ! 8221 = CR" "(long_header @ rest) ! 8222 = LF"
  by (simp_all add: long_header_def nth_append)

lemma lh_head:
  "(long_header @ rest) ! 16 = CHR ''X''" "(long_header @ rest) ! 17 = CHR '':''"
  "(long_header @ rest) ! 19 = CHR ''a''"
  by (simp_all add: long_header_def nth_append)

lemma lh_content:
  "field_content (long_header @ rest) 8220 19 None = Some (Fall 8219 (Some 19))"
  by (simp add: field_content_def rd_def lh_len lh_head lh_tail lh_skip ctype_defs)

lemma lh_value:
  "field_value (long_header @ rest) 8220 19 None =
     Some (long_header @ rest, Line_end 8221 19 8219)"
  by (subst field_value.simps) (simp add: lh_content rd_def lh_len lh_tail ctype_defs)

lemma lh_slices:
  "slice (long_header @ rest) 16 17 = ''X''"
  "slice (long_header @ rest) 19 8219 = replicate 8200 (CHR ''a'')"
  by (simp_all add: slice_def long_header_def)

lemma lh_field:
  "parse_field (long_header @ rest) 16 8223 =
     Some (long_header @ rest, 8221, None, Some (''X'', replicate 8200 (CHR ''a'')))"
  by (simp add: parse_field_def lh_name lh_ows lh_value rd_def lh_len lh_head lh_slices
        field_dispatch_same)

lemma lh_fields:
  "parse_fields (long_header @ rest) 16 8223 = Some (long_header @ rest, 8223, None)"
  apply (subst parse_fields.simps)
  apply (simp add: rd_def lh_len lh_head lh_field)
  apply (subst parse_fields.simps)
  apply (simp add: rd_def lh_len lh_tail)
  done

text \<open>Evaluation of \<open>parse_header\<close> on the request with the empty field name.\<close>

lemma bad_name_start_line:
  "request_start_line (bad_name_parser\<lparr>state := start_line\<rparr>) 0 23 =
     Some (bad_name_parser\<lparr>state := start_line, version := Some 1\<rparr>, 16, None)"
  by (simp add: bad_name_parser_def bad_name_request_def request_start_line_def
        parse_version_def set_skip.simps rd_def slice_def ctype_defs nth_append
        basic_parser_init_def)

lemma bad_name_header:
  "parse_header request_start_line bad_name_parser =
     Some (bad_name_parser\<lparr>parsed := 16, state := state.fields, version := Some 1\<rparr>,
           Some bad_field)"
  by (simp add: header_defs bad_name_parser_def bad_name_request_def nth_append
        basic_parser_init_def)

lemma bad_name_cursors: "parsed bad_name_parser = 0" "committed bad_name_parser = 23"
  by (simp_all add: bad_name_parser_def basic_parser_init_def)

text \<open>
  C1, as the code has it: the constructor stores the limit 8192 in \<open>header_limit_\<close>, but
  the limit is compared with nothing. Parsing the field block does not depend on it,
  and \<open>parse_header\<close> never reports the code \<open>header_limit\<close> (written \<open>error.header_limit\<close>
  here), unless \<open>parse_start_line\<close> does.
\<close>

theorem header_limit_not_enforced:
  "header_limit basic_parser_init = 8192 \<and>
   header_fields (p\<lparr>header_limit := n\<rparr>) first last' =
     map_option (\<lambda>(q, ec). (q\<lparr>header_limit := n\<rparr>, ec)) (header_fields p first last') \<and>
   ((\<forall>q first' ec. psl (p\<lparr>state := start_line\<rparr>) (parsed p) (committed p) = Some (q, first', ec)
        \<longrightarrow> ec \<noteq> Some error.header_limit) \<longrightarrow>
    parse_header psl p \<noteq> Some (p', Some error.header_limit))"
proof (intro conjI impI)
  show "header_limit basic_parser_init = 8192" by (simp add: basic_parser_init_def)
  show "header_fields (p\<lparr>header_limit := n\<rparr>) first last' =
     map_option (\<lambda>(q, ec). (q\<lparr>header_limit := n\<rparr>, ec)) (header_fields p first last')"
    by (rule header_fields_limit)
next
  assume psl: "\<forall>q first' ec.
    psl (p\<lparr>state := start_line\<rparr>) (parsed p) (committed p) = Some (q, first', ec) \<longrightarrow>
    ec \<noteq> Some error.header_limit"
  have same: "state p = start_line \<Longrightarrow> p\<lparr>state := start_line\<rparr> = p" by simp
  have hs: "header_start_line psl (p\<lparr>state := start_line\<rparr>) (parsed p) (committed p) \<noteq>
      Some (p', Some error.header_limit)"
    using psl
    by (auto simp: header_start_line_def split: option.splits if_splits
        dest!: header_fields_result)
  show "parse_header psl p \<noteq> Some (p', Some error.header_limit)"
  proof (cases "state p")
    case nothing_yet
    with hs show ?thesis by (auto simp: parse_header_def Let_def)
  next
    case start_line
    with hs same show ?thesis by (auto simp: parse_header_def Let_def)
  next
    case fields
    then show ?thesis
      by (auto simp: parse_header_def Let_def dest!: header_fields_result)
  qed (auto simp: parse_header_def Let_def)
qed

theorem header_limit_not_enforced_witness:
  "header_limit basic_parser_init = 8192 \<and>
   header_fields (bad_name_parser\<lparr>header_limit := 1\<rparr>) 16 23 =
     map_option (\<lambda>(q, ec). (q\<lparr>header_limit := 1\<rparr>, ec)) (header_fields bad_name_parser 16 23) \<and>
   parse_header request_start_line bad_name_parser \<noteq>
     Some (bad_name_parser, Some error.header_limit)"
proof -
  have hyp: "\<forall>q first' ec.
      request_start_line (bad_name_parser\<lparr>state := start_line\<rparr>) (parsed bad_name_parser)
        (committed bad_name_parser) = Some (q, first', ec) \<longrightarrow>
      ec \<noteq> Some error.header_limit"
    by (simp add: bad_name_cursors bad_name_start_line)
  from hyp header_limit_not_enforced
    [where p = bad_name_parser and psl = request_start_line and n = 1 and first = 16
       and last' = 23 and p' = bad_name_parser]
  show ?thesis by blast
qed

text \<open>
  C1 fails as stated: the request of 8223 bytes exceeds the limit 8192 that the parser
  holds, and \<open>parse_header\<close> succeeds on it, ending in the state \<open>body\<close>; so does the
  field block alone, entered after the start line.
\<close>

theorem header_limit_exceeded_accepted:
  "length long_header = 8223 \<and> header_limit long_header_parser = 8192 \<and>
   parse_header request_start_line long_header_parser =
     Some (long_header_parser\<lparr>parsed := 8223, state := body, version := Some 1\<rparr>, None) \<and>
   header_fields (long_header_parser\<lparr>parsed := 16, state := state.fields, version := Some 1\<rparr>)
       16 8223 =
     Some (long_header_parser\<lparr>parsed := 8223, state := body, version := Some 1\<rparr>, None)"
  by (simp add: lh_len long_header_parser_def parse_header_def header_start_line_def
        header_fields_def finish_def lh_start_line lh_fields basic_parser_init_sel)

text \<open>
  C2, as the code has it: when \<open>parse_header\<close> reports an error with bytes committed, a
  syntax error and \<open>need_more\<close> alike, the state it leaves is the stage in which the
  error arose, \<open>start_line\<close> when the start-line parser reported it and \<open>fields\<close> when the
  field block did, and so never \<open>failed\<close> (the start-line parser, which is not among the
  sources, is taken to leave the state alone). A later call of \<open>parse_header\<close> with
  bytes committed is not made to fail: in the state \<open>start_line\<close> it runs the start line
  again and in the state \<open>fields\<close> the field block, from \<open>parsed\<close>. \<open>reset\<close> returns the
  parser as it is.
\<close>

theorem parse_header_error_keeps_stage:
  "(parse_header psl p = Some (p', ec) \<and> ec \<noteq> None \<and> committed p \<noteq> 0 \<and>
    (\<forall>q first' ec'. psl (p\<lparr>state := start_line\<rparr>) (parsed p) (committed p) = Some (q, first', ec')
        \<longrightarrow> state q = start_line) \<longrightarrow>
    state p' =
      (if state p \<noteq> state.fields \<and>
          (\<exists>q first'. psl (p\<lparr>state := start_line\<rparr>) (parsed p) (committed p) =
             Some (q, first', ec))
       then start_line else state.fields)) \<and>
   (committed r \<noteq> 0 \<and> state r = start_line \<longrightarrow>
      parse_header psl r = header_start_line psl r (parsed r) (committed r)) \<and>
   (committed r \<noteq> 0 \<and> state r = state.fields \<longrightarrow>
      parse_header psl r = header_fields r (parsed r) (committed r)) \<and>
   reset r = r"
proof (intro conjI impI)
  show "reset r = r" by (simp add: reset_def)
  show "parse_header psl r = header_start_line psl r (parsed r) (committed r)"
    if "committed r \<noteq> 0 \<and> state r = start_line"
    using that by (simp add: parse_header_def Let_def)
  show "parse_header psl r = header_fields r (parsed r) (committed r)"
    if "committed r \<noteq> 0 \<and> state r = state.fields"
    using that by (simp add: parse_header_def Let_def)
next
  assume a: "parse_header psl p = Some (p', ec) \<and> ec \<noteq> None \<and> committed p \<noteq> 0 \<and>
    (\<forall>q first' ec'. psl (p\<lparr>state := start_line\<rparr>) (parsed p) (committed p) = Some (q, first', ec')
        \<longrightarrow> state q = start_line)"
  then have run: "parse_header psl p = Some (p', ec)" and err: "ec \<noteq> None"
    and com: "committed p \<noteq> 0"
    and psl: "\<And>q first' ec'.
      psl (p\<lparr>state := start_line\<rparr>) (parsed p) (committed p) = Some (q, first', ec') \<Longrightarrow>
      state q = start_line"
    by auto
  let ?call = "psl (p\<lparr>state := start_line\<rparr>) (parsed p) (committed p)"
  have same: "state p = start_line \<Longrightarrow> p\<lparr>state := start_line\<rparr> = p" by simp
  have hs: "state p' = (if (\<exists>q first'. ?call = Some (q, first', ec)) then start_line
                        else state.fields)"
    if h: "header_start_line psl (p\<lparr>state := start_line\<rparr>) (parsed p) (committed p) =
      Some (p', ec)"
  proof -
    from h obtain q first' ec' where c: "?call = Some (q, first', ec')"
      by (auto simp: header_start_line_def split: option.splits if_splits)
    from psl [OF c] have q: "state q = start_line" .
    show ?thesis
    proof (cases "ec' = None")
      case True
      with h c have hf: "header_fields (q\<lparr>state := state.fields\<rparr>) first' (committed p) =
          Some (p', ec)"
        by (auto simp: header_start_line_def split: if_splits)
      from header_fields_error_state [OF hf err] have "state p' = state.fields" by simp
      moreover have "\<not> (\<exists>q first'. ?call = Some (q, first', ec))"
        using c True err by auto
      ultimately show ?thesis by simp
    next
      case False
      with h c have "p' = finish q first'" "ec = ec'"
        by (auto simp: header_start_line_def split: if_splits)
      with q c show ?thesis by (auto simp: finish_def)
    qed
  qed
  show "state p' =
      (if state p \<noteq> state.fields \<and> (\<exists>q first'. ?call = Some (q, first', ec))
       then start_line else state.fields)"
  proof (cases "state p")
    case nothing_yet
    with run com have "header_start_line psl (p\<lparr>state := start_line\<rparr>) (parsed p)
        (committed p) = Some (p', ec)"
      by (simp add: parse_header_def Let_def)
    from hs [OF this] nothing_yet show ?thesis by simp
  next
    case start_line
    with run com have "header_start_line psl p (parsed p) (committed p) = Some (p', ec)"
      by (simp add: parse_header_def Let_def)
    with same [OF start_line] have "header_start_line psl (p\<lparr>state := start_line\<rparr>)
        (parsed p) (committed p) = Some (p', ec)"
      by simp
    from hs [OF this] start_line show ?thesis by simp
  next
    case fields
    with run com have "header_fields p (parsed p) (committed p) = Some (p', ec)"
      by (simp add: parse_header_def Let_def)
    from header_fields_error_state [OF this err] fields show ?thesis by simp
  qed (use run com err in \<open>auto simp: parse_header_def Let_def finish_def\<close>)
qed


theorem parse_header_error_keeps_stage_witness:
  "parse_header request_start_line bad_name_parser =
     Some (bad_name_parser\<lparr>parsed := 16, state := state.fields, version := Some 1\<rparr>,
           Some bad_field) \<and>
   state (bad_name_parser\<lparr>parsed := 16, state := state.fields, version := Some 1\<rparr>) =
     state.fields \<and>
   parse_header request_start_line
       (bad_name_parser\<lparr>parsed := 16, state := state.fields, version := Some 1\<rparr>) =
     header_fields (bad_name_parser\<lparr>parsed := 16, state := state.fields, version := Some 1\<rparr>)
       16 23 \<and>
   reset (bad_name_parser\<lparr>parsed := 16, state := state.fields, version := Some 1\<rparr>) =
     bad_name_parser\<lparr>parsed := 16, state := state.fields, version := Some 1\<rparr>"
proof -
  let ?p' = "bad_name_parser\<lparr>parsed := 16, state := state.fields, version := Some 1\<rparr>"
  have hyp: "\<forall>q first' ec'.
      request_start_line (bad_name_parser\<lparr>state := start_line\<rparr>) (parsed bad_name_parser)
        (committed bad_name_parser) = Some (q, first', ec') \<longrightarrow>
      state q = start_line"
    by (simp add: bad_name_cursors bad_name_start_line)
  have sel: "committed bad_name_parser \<noteq> 0" "committed ?p' \<noteq> 0" "state ?p' = state.fields"
    "parsed ?p' = 16" "committed ?p' = 23"
    by (simp_all add: bad_name_cursors)
  have nf: "state bad_name_parser \<noteq> state.fields"
    by (simp add: bad_name_parser_def basic_parser_init_def)
  from hyp sel nf bad_name_header parse_header_error_keeps_stage
    [where psl = request_start_line and p = bad_name_parser and ec = "Some bad_field"
       and p' = ?p' and r = ?p']
  show ?thesis by (simp add: bad_name_start_line bad_name_cursors)
qed

lemma split_parser_reached:
  "(prepare basic_parser_init \<bind> (\<lambda>(p, region). store_prepared split_request p) \<bind> commit 24) =
     Some split_parser"
proof -
  let ?p1 = "basic_parser_init\<lparr>buffer := Some (new_chars 4096), capacity := 4096\<rparr>"
  let ?p2 = "basic_parser_init\<lparr>buffer := Some (split_request @ new_chars 4072),
               capacity := 4096\<rparr>"
  have s1: "prepare basic_parser_init = Some (?p1, 0, 4096)"
    by (simp add: prepare_def basic_parser_init_def size_sub_def)
  have s2: "store_prepared split_request ?p1 = Some ?p2"
    by (simp add: store_prepared_def basic_parser_init_def new_chars_def split_request_def)
  have s3: "commit 24 ?p2 = Some split_parser"
    by (simp add: commit_def basic_parser_init_def size_sub_def size_add_def split_parser_def)
  show ?thesis
    by (simp only: s1 s2 s3 bind.simps prod.case)
qed

lemma split_parser_header:
  "parse_header request_start_line split_parser =
     Some (split_parser\<lparr>parsed := 16, state := state.fields, version := Some 1\<rparr>,
           Some bad_field)"
  by (simp add: header_defs split_parser_def basic_parser_init_def split_request_def nth_append
        list_update_append)

lemma split_parser_more:
  "(prepare (split_parser\<lparr>parsed := 16, state := state.fields, version := Some 1\<rparr>) \<bind>
      (\<lambda>(p, region). store_prepared [LF, CR, LF] p) \<bind> commit 3) =
     Some (split_parser
             \<lparr>buffer := Some (split_request @ [LF, CR, LF] @ new_chars 4069), committed := 27,
              parsed := 16, state := state.fields, version := Some 1\<rparr>)"
proof -
  let ?p4 = "split_parser\<lparr>parsed := 16, state := state.fields, version := Some 1\<rparr>"
  let ?p6 = "split_parser\<lparr>buffer := Some (split_request @ [LF, CR, LF] @ new_chars 4069),
               parsed := 16, state := state.fields, version := Some 1\<rparr>"
  have s5: "prepare ?p4 = Some (?p4, 24, 4072)"
    by (simp add: prepare_def split_parser_def basic_parser_init_def size_sub_def)
  have s6: "store_prepared [LF, CR, LF] ?p4 = Some ?p6"
    by (simp add: store_prepared_def split_parser_def basic_parser_init_def new_chars_def
          split_request_def)
  have s7: "commit 3 ?p6 =
      Some (split_parser
             \<lparr>buffer := Some (split_request @ [LF, CR, LF] @ new_chars 4069), committed := 27,
              parsed := 16, state := state.fields, version := Some 1\<rparr>)"
    by (simp add: commit_def split_parser_def basic_parser_init_def size_sub_def size_add_def)
  show ?thesis
    by (simp only: s5 s6 s7 bind.simps prod.case)
qed

lemma split_parser_again:
  "parse_header request_start_line
     (split_parser
        \<lparr>buffer := Some (split_request @ [LF, CR, LF] @ new_chars 4069), committed := 27,
         parsed := 16, state := state.fields, version := Some 1\<rparr>) =
   Some (split_parser
           \<lparr>buffer := Some (split_request @ [LF, CR, LF] @ new_chars 4069), committed := 27,
            parsed := 27, state := body, version := Some 1\<rparr>,
         None)"
  by (simp add: header_defs split_parser_def basic_parser_init_def split_request_def nth_append
        list_update_append)

lemma split_parser_fields:
  "header_fields (split_parser\<lparr>parsed := 16, state := state.fields, version := Some 1\<rparr>) 16 24 =
     Some (split_parser\<lparr>parsed := 16, state := state.fields, version := Some 1\<rparr>,
           Some bad_field)"
  by (simp add: header_defs split_parser_def basic_parser_init_def split_request_def nth_append
        list_update_append)

text \<open>
  C2 fails as stated: with the first 24 bytes of a request committed, \<open>parse_header\<close>
  reports the syntax error \<open>bad_field\<close> and the state is \<open>fields\<close>, not \<open>failed\<close> (the
  field block alone, entered after the start line, does the same); once the remaining
  three bytes are committed, and with no \<open>reset\<close>, the next call of \<open>parse_header\<close>
  succeeds.
\<close>

theorem syntax_error_then_success:
  "(prepare basic_parser_init \<bind> (\<lambda>(p, region). store_prepared split_request p) \<bind> commit 24) =
     Some split_parser \<and>
   map_option (\<lambda>(p, ec). (state p, ec)) (parse_header request_start_line split_parser) =
     Some (state.fields, Some bad_field) \<and>
   map_option (\<lambda>(p, ec). (state p, ec))
     (header_fields (split_parser\<lparr>parsed := 16, state := state.fields, version := Some 1\<rparr>)
        16 24) =
     Some (state.fields, Some bad_field) \<and>
   map_option (\<lambda>(p, ec). (state p, ec))
     (parse_header request_start_line split_parser \<bind>
        (\<lambda>(p, ec). prepare p) \<bind> (\<lambda>(p, region). store_prepared [LF, CR, LF] p) \<bind>
        commit 3 \<bind> parse_header request_start_line) =
     Some (body, None)"
  unfolding split_parser_reached split_parser_header split_parser_fields
  by (simp only: bind.simps prod.case split_parser_more split_parser_again) simp

text \<open>
  C3, as the code has it: \<open>reset\<close> has an empty body, so it returns the parser with every
  member as it was; the parser is blank afterwards exactly when it was blank before.
\<close>

theorem reset_keeps_everything:
  "reset p = p \<and> (blank (reset p) \<longleftrightarrow> blank p)"
  by (simp add: reset_def)

text \<open>
  C3 fails as stated: after \<open>prepare\<close>, \<open>commit(1)\<close> and \<open>reset\<close> the parser still has one
  committed byte, so it is not a blank parser.
\<close>

theorem reset_not_blank:
  "(case prepare basic_parser_init of
      None \<Rightarrow> False
    | Some (p, region) \<Rightarrow>
        (case commit 1 p of
           None \<Rightarrow> False
         | Some p' \<Rightarrow> committed (reset p') = 1 \<and> \<not> blank (reset p')))"
  by (simp add: prepare_def basic_parser_init_def commit_def size_sub_def size_add_def reset_def
        blank_def)

text \<open>
  C4, as the code has it: an obs-fold (CRLF followed by SP or HTAB) is overwritten
  with three SP when it directly follows the whitespace after the colon, a run of
  field-vchar bytes, or the whitespace of the obs-fold before it; an obs-fold that
  follows whitespace after field-vchar bytes is not. First: whenever \<open>parse_field\<close>
  completes a line, the buffer it leaves is the buffer it was given with every obs-fold
  of that line replaced by three SP and every other byte as it was, the name is the
  token at \<open>start\<close>, and the value is what lies in that buffer between the colon and the
  CRLF of the line, less the whitespace it begins with. Second: \<open>parse_field\<close> completes
  every line made of a token, a colon, whitespace, any number of pieces (a run of
  field-vchar bytes, an obs-fold, whitespace), a last run of field-vchar bytes and
  CRLF, when the CRLF is followed below \<open>end\<close> by a byte other than SP and HTAB and by
  one byte more: it returns the position after the CRLF, the name, and as value the
  pieces with each fold replaced by three SP, the other bytes as in the input. Third:
  when on such a line the last run is not empty and is followed by whitespace and an
  obs-fold, and the three bytes of that fold lie below \<open>end\<close>, \<open>parse_field\<close> sets
  \<open>bad_value\<close> and returns \<open>start\<close>; the folds of the pieces before are overwritten, that
  one is left as it is.
\<close>

theorem obs_fold_overwritten:
  "(parse_field buf start end0 = Some (buf', it, None, fld) \<longrightarrow>
      buf' = take start buf @ unfold_obs (slice buf start it) @ drop it buf \<and>
      fld = Some (line_name buf start, line_value buf' start it)) \<and>
   (name \<noteq> [] \<and> list_all tchar_contains name \<and> list_all ws_contains ows \<and>
    list_all piece_ok ps \<and> list_all field_vchar_contains s \<and> \<not> ws_contains c \<and>
    length (pre @ name @ CHR '':'' # ows @ folded_value ps s) + 4 \<le> lim \<longrightarrow>
      parse_field (pre @ name @ CHR '':'' # ows @ folded_value ps s @ CR # LF # c # rest)
          (length pre) lim =
        Some (pre @ name @ CHR '':'' # ows @ flat_value ps s @ CR # LF # c # rest,
              length (pre @ name @ CHR '':'' # ows @ folded_value ps s) + 2,
              None,
              Some (name, dropWhile ws_contains (flat_value ps s)))) \<and>
   (name' \<noteq> [] \<and> list_all tchar_contains name' \<and> list_all ws_contains ows' \<and>
    list_all piece_ok ps' \<and> s' \<noteq> [] \<and> list_all field_vchar_contains s' \<and>
    ws_contains u \<and> list_all ws_contains t \<and> ws_contains w \<and>
    length (pre' @ name' @ CHR '':'' # ows' @ folded_value ps' (s' @ u # t)) + 3 \<le> lim' \<longrightarrow>
      parse_field
          (pre' @ name' @ CHR '':'' # ows' @ folded_value ps' (s' @ u # t) @
             CR # LF # w # rest')
          (length pre') lim' =
        Some (pre' @ name' @ CHR '':'' # ows' @ flat_value ps' (s' @ u # t) @
                CR # LF # w # rest',
              length pre', Some bad_value, None))"
proof -
  have sound: "parse_field buf start end0 = Some (buf', it, None, fld) \<longrightarrow>
      buf' = take start buf @ unfold_obs (slice buf start it) @ drop it buf \<and>
      fld = Some (line_name buf start, line_value buf' start it)"
    by (rule impI) (rule parse_field_complete_line)
  have complete: "name \<noteq> [] \<and> list_all tchar_contains name \<and> list_all ws_contains ows \<and>
    list_all piece_ok ps \<and> list_all field_vchar_contains s \<and> \<not> ws_contains c \<and>
    length (pre @ name @ CHR '':'' # ows @ folded_value ps s) + 4 \<le> lim \<longrightarrow>
      parse_field (pre @ name @ CHR '':'' # ows @ folded_value ps s @ CR # LF # c # rest)
          (length pre) lim =
        Some (pre @ name @ CHR '':'' # ows @ flat_value ps s @ CR # LF # c # rest,
              length (pre @ name @ CHR '':'' # ows @ folded_value ps s) + 2,
              None,
              Some (name, dropWhile ws_contains (flat_value ps s)))"
  proof
    assume a: "name \<noteq> [] \<and> list_all tchar_contains name \<and> list_all ws_contains ows \<and>
      list_all piece_ok ps \<and> list_all field_vchar_contains s \<and> \<not> ws_contains c \<and>
      length (pre @ name @ CHR '':'' # ows @ folded_value ps s) + 4 \<le> lim"
    then have room: "length pre + length name + 1 + length ows +
        length (concat (map piece_bytes ps)) + length s + 4 \<le> lim"
      by (simp add: folded_value_def)
    have "parse_field
        (pre @ name @ CHR '':'' # ows @ concat (map piece_bytes ps) @ s @ CR # LF # c # rest)
        (length pre) lim =
      Some (pre @ name @ CHR '':'' # ows @ concat (map piece_flat ps) @ s @ CR # LF # c # rest,
            length pre + length name + 1 + length ows +
              length (concat (map piece_bytes ps)) + length s + 2,
            None,
            Some (name, dropWhile ws_contains (concat (map piece_flat ps) @ s)))"
      using a room by (intro parse_field_folded) simp_all
    then show "parse_field
        (pre @ name @ CHR '':'' # ows @ folded_value ps s @ CR # LF # c # rest)
        (length pre) lim =
      Some (pre @ name @ CHR '':'' # ows @ flat_value ps s @ CR # LF # c # rest,
            length (pre @ name @ CHR '':'' # ows @ folded_value ps s) + 2,
            None,
            Some (name, dropWhile ws_contains (flat_value ps s)))"
      by (simp add: folded_value_def flat_value_def)
  qed
  have rejected: "name' \<noteq> [] \<and> list_all tchar_contains name' \<and> list_all ws_contains ows' \<and>
    list_all piece_ok ps' \<and> s' \<noteq> [] \<and> list_all field_vchar_contains s' \<and>
    ws_contains u \<and> list_all ws_contains t \<and> ws_contains w \<and>
    length (pre' @ name' @ CHR '':'' # ows' @ folded_value ps' (s' @ u # t)) + 3 \<le> lim' \<longrightarrow>
      parse_field
          (pre' @ name' @ CHR '':'' # ows' @ folded_value ps' (s' @ u # t) @
             CR # LF # w # rest')
          (length pre') lim' =
        Some (pre' @ name' @ CHR '':'' # ows' @ flat_value ps' (s' @ u # t) @
                CR # LF # w # rest',
              length pre', Some bad_value, None)"
  proof
    assume a: "name' \<noteq> [] \<and> list_all tchar_contains name' \<and> list_all ws_contains ows' \<and>
      list_all piece_ok ps' \<and> s' \<noteq> [] \<and> list_all field_vchar_contains s' \<and>
      ws_contains u \<and> list_all ws_contains t \<and> ws_contains w \<and>
      length (pre' @ name' @ CHR '':'' # ows' @ folded_value ps' (s' @ u # t)) + 3 \<le> lim'"
    then have room: "length pre' + length name' + 1 + length ows' +
        length (concat (map piece_bytes ps')) + length s' + 1 + length t + 3 \<le> lim'"
      by (simp add: folded_value_def)
    have "parse_field
        (pre' @ name' @ CHR '':'' # ows' @ concat (map piece_bytes ps') @ s' @ u # t @
           CR # LF # w # rest')
        (length pre') lim' =
      Some (pre' @ name' @ CHR '':'' # ows' @ concat (map piece_flat ps') @ s' @ u # t @
              CR # LF # w # rest',
            length pre', Some bad_value, None)"
      using a room by (intro parse_field_space_fold) simp_all
    then show "parse_field
        (pre' @ name' @ CHR '':'' # ows' @ folded_value ps' (s' @ u # t) @
           CR # LF # w # rest')
        (length pre') lim' =
      Some (pre' @ name' @ CHR '':'' # ows' @ flat_value ps' (s' @ u # t) @
              CR # LF # w # rest',
            length pre', Some bad_value, None)"
      by (simp add: folded_value_def flat_value_def)
  qed
  show ?thesis by (rule conjI [OF sound conjI [OF complete rejected]])
qed

theorem obs_fold_overwritten_witness:
  "parse_field folded_line 0 12 =
     Some (''X: a   b'' @ [CR, LF, CR, LF], 10, None, Some (''X'', ''a   b'')) \<and>
   ''X: a   b'' @ [CR, LF, CR, LF] =
     take 0 folded_line @ unfold_obs (slice folded_line 0 10) @ drop 10 folded_line \<and>
   line_name folded_line 0 = ''X'' \<and>
   line_value (''X: a   b'' @ [CR, LF, CR, LF]) 0 10 = ''a   b'' \<and>
   parse_field tab_fold_line 0 10 = Some (tab_fold_line, 0, Some bad_value, None)"
proof -
  note inst = obs_fold_overwritten
    [where buf = folded_line and start = 0 and ?end0.0 = 12
       and buf' = "''X: a   b'' @ [CR, LF, CR, LF]" and it = 10
       and fld = "Some (''X'', ''a   b'')"
       and pre = "[]" and name = "''X''" and ows = "'' ''" and ps = "[(''a'', SP, [])]"
       and s = "''b''" and c = CR and rest = "[LF]" and lim = 12
       and pre' = "[]" and name' = "''K''" and ows' = "[]" and ps' = "[]" and s' = "''v''"
       and u = HTAB and t = "[]" and w = HTAB and rest' = "''z'' @ [CR, LF]" and lim' = 10]
  have completed: "parse_field folded_line 0 12 =
      Some (''X: a   b'' @ [CR, LF, CR, LF], 10, None, Some (''X'', ''a   b''))"
    using inst [THEN conjunct2, THEN conjunct1]
    by (simp add: folded_line_def folded_value_def flat_value_def piece_bytes_def
          piece_flat_def piece_ok_def ctype_defs)
  have rejected: "parse_field tab_fold_line 0 10 = Some (tab_fold_line, 0, Some bad_value, None)"
    using inst [THEN conjunct2, THEN conjunct2]
    by (simp add: tab_fold_line_def folded_value_def flat_value_def ctype_defs)
  have normal: "''X: a   b'' @ [CR, LF, CR, LF] =
      take 0 folded_line @ unfold_obs (slice folded_line 0 10) @ drop 10 folded_line \<and>
    Some (''X'', ''a   b'') =
      Some (line_name folded_line 0, line_value (''X: a   b'' @ [CR, LF, CR, LF]) 0 10)"
    by (rule mp [OF inst [THEN conjunct1] completed])
  from normal have n1: "''X: a   b'' @ [CR, LF, CR, LF] =
      take 0 folded_line @ unfold_obs (slice folded_line 0 10) @ drop 10 folded_line"
    by (rule conjunct1)
  from normal have "Some (''X'', ''a   b'') =
      Some (line_name folded_line 0, line_value (''X: a   b'' @ [CR, LF, CR, LF]) 0 10)"
    by (rule conjunct2)
  then have n2: "''X'' = line_name folded_line 0 \<and>
      ''a   b'' = line_value (''X: a   b'' @ [CR, LF, CR, LF]) 0 10"
    by (simp only: option.inject prod.inject)
  show ?thesis
    by (intro conjI)
       (rule completed, rule n1, rule n2 [THEN conjunct1, symmetric],
        rule n2 [THEN conjunct2, symmetric], rule rejected)
qed

text \<open>
  C4 fails as stated: on the line \<open>X: a SP CRLF SP b CRLF CRLF\<close>, whose obs-fold follows
  a space, \<open>parse_field\<close> sets \<open>bad_value\<close> and returns \<open>start\<close>, and the buffer is as it
  was: the obs-fold at offsets 5 to 7 is not overwritten, and the buffer is not the
  normalised one.
\<close>

theorem obs_fold_after_space_kept:
  "parse_field spaced_fold_line 0 13 = Some (spaced_fold_line, 0, Some bad_value, None) \<and>
   length spaced_fold_line = 13 \<and>
   slice spaced_fold_line 5 8 = [CR, LF, SP] \<and>
   unfold_obs spaced_fold_line = ''X: a    b'' @ [CR, LF, CR, LF]"
  by (simp add: spaced_fold_line_def field_defs slice_def)

text \<open>
  C5: a call of \<open>parse_field\<close> with fewer than three bytes between \<open>start\<close> and \<open>end\<close>
  (and \<open>start \<noteq> end\<close>, which the function asserts) sets \<open>need_more\<close> and returns \<open>start\<close>;
  the buffer is unchanged and no name and value are produced.
\<close>

theorem parse_field_lookahead:
  "start \<noteq> end0 \<Longrightarrow> int end0 - int start < 3 \<Longrightarrow>
     parse_field buf start end0 = Some (buf, start, Some need_more, None)"
  by (simp add: parse_field_def)

theorem parse_field_lookahead_witness:
  "(5::nat) \<noteq> 7 \<and> int 7 - int 5 < 3 \<and>
   parse_field ''Host: x'' 5 7 = Some (''Host: x'', 5, Some need_more, None)"
  using parse_field_lookahead [of 5 7 "''Host: x''"]
  by simp

lemma slice_snoc:
  "a + n < length buf \<Longrightarrow> slice buf a (a + Suc n) = slice buf a (a + n) @ [buf ! (a + n)]"
  by (simp add: slice_def take_Suc_conv_app_nth)

text \<open>
  C6: with fewer than eight bytes available \<open>parse_version\<close> sets \<open>need_more\<close> and leaves
  \<open>first\<close>; with eight or more it accepts exactly the bytes \<open>HTTP/1.0\<close> (version 0) and
  \<open>HTTP/1.1\<close> (version 1), moving \<open>first\<close> past them, and sets \<open>bad_version\<close> on any other
  eight bytes, leaving \<open>first\<close>.
\<close>

theorem parse_version_literal:
  "(int last' - int first < 8 \<longrightarrow>
      parse_version p buf first last' = Some (p, first, Some need_more)) \<and>
   (first + 8 \<le> last' \<and> last' \<le> length buf \<longrightarrow>
      parse_version p buf first last' =
        (if slice buf first (first + 8) = ''HTTP/1.0''
         then Some (p\<lparr>version := Some 0\<rparr>, first + 8, None)
         else if slice buf first (first + 8) = ''HTTP/1.1''
         then Some (p\<lparr>version := Some 1\<rparr>, first + 8, None)
         else Some (p, first, Some bad_version)))"
proof (intro conjI impI)
  assume "int last' - int first < 8"
  then show "parse_version p buf first last' = Some (p, first, Some need_more)"
    by (simp add: parse_version_def)
next
  assume a: "first + 8 \<le> last' \<and> last' \<le> length buf"
  then have lt: "first + 7 < length buf" by simp
  have s8: "slice buf first (first + 8) = slice buf first (first + 7) @ [buf ! (first + 7)]"
    using slice_snoc [OF lt] by simp
  have l7: "length (slice buf first (first + 7)) = 7"
    using lt by (simp add: slice_def)
  have nm: "\<not> int last' - int first < 8" using a by simp
  have rd7: "rd buf (first + 7) = Some (buf ! (first + 7))" using lt by (simp add: rd_def)
  show "parse_version p buf first last' =
        (if slice buf first (first + 8) = ''HTTP/1.0''
         then Some (p\<lparr>version := Some 0\<rparr>, first + 8, None)
         else if slice buf first (first + 8) = ''HTTP/1.1''
         then Some (p\<lparr>version := Some 1\<rparr>, first + 8, None)
         else Some (p, first, Some bad_version))"
  proof (cases "slice buf first (first + 7) = ''HTTP/1.''")
    case True
    with lt nm rd7 s8 show ?thesis
      by (auto simp: parse_version_def Let_def)
  next
    case False
    with l7 have "slice buf first (first + 8) \<noteq> ''HTTP/1.0''"
      "slice buf first (first + 8) \<noteq> ''HTTP/1.1''"
      unfolding s8 by auto
    with False lt nm show ?thesis
      by (simp add: parse_version_def Let_def)
  qed
qed

theorem parse_version_literal_witness:
  "int 3 - int 0 < 8 \<and>
   parse_version basic_parser_init ''HTT'' 0 3 = Some (basic_parser_init, 0, Some need_more) \<and>
   parse_version basic_parser_init ''HTTP/1.0'' 0 8 =
     Some (basic_parser_init\<lparr>version := Some 0\<rparr>, 8, None) \<and>
   parse_version basic_parser_init ''HTTP/1.1'' 0 8 =
     Some (basic_parser_init\<lparr>version := Some 1\<rparr>, 8, None) \<and>
   parse_version basic_parser_init ''HTTP/2.0'' 0 8 = Some (basic_parser_init, 0, Some bad_version)"
  using
    parse_version_literal
      [where last' = 3 and first = 0 and p = basic_parser_init and buf = "''HTT''"]
    parse_version_literal
      [where last' = 8 and first = 0 and p = basic_parser_init and buf = "''HTTP/1.0''"]
    parse_version_literal
      [where last' = 8 and first = 0 and p = basic_parser_init and buf = "''HTTP/1.1''"]
    parse_version_literal
      [where last' = 8 and first = 0 and p = basic_parser_init and buf = "''HTTP/2.0''"]
  by (simp add: slice_def)

text \<open>
  C7: where a line of the field block begins with CR and its next byte is there,
  \<open>parse_fields\<close> ends the block when that byte is LF, with \<open>first\<close> moved past the CRLF
  and \<open>ec\<close> clear, so that \<open>parse_header\<close> moves from \<open>fields\<close> to \<open>body\<close>; and it sets
  \<open>bad_line_ending\<close> when that byte is not LF. The loop of \<open>parse_fields\<close> is the
  recursion, so this holds at each line it reaches.
\<close>

theorem parse_fields_line_begins_with_CR:
  "first + 2 \<le> last' \<Longrightarrow> rd buf first = Some CR \<Longrightarrow> rd buf (first + 1) = Some c \<Longrightarrow>
     parse_fields buf first last' =
       (if c = LF then Some (buf, first + 2, None)
        else Some (buf, first, Some bad_line_ending)) \<and>
     (buffer p = Some buf \<longrightarrow>
        header_fields p first last' =
          (if c = LF then Some (p\<lparr>parsed := first + 2, state := body\<rparr>, None)
           else Some (p\<lparr>parsed := first\<rparr>, Some bad_line_ending)))"
proof -
  assume a: "first + 2 \<le> last'" "rd buf first = Some CR" "rd buf (first + 1) = Some c"
  have pf: "parse_fields buf first last' =
       (if c = LF then Some (buf, first + 2, None)
        else Some (buf, first, Some bad_line_ending))"
    using a by (subst parse_fields.simps) simp
  have same: "buffer p = Some buf \<Longrightarrow> p\<lparr>buffer := Some buf\<rparr> = p"
    by simp
  show ?thesis
    by (auto simp: header_fields_def pf finish_def same)
qed

theorem parse_fields_line_begins_with_CR_witness:
  "(0::nat) + 2 \<le> 2 \<and> rd [CR, LF] 0 = Some CR \<and> rd [CR, LF] (0 + 1) = Some LF \<and>
   parse_fields [CR, LF] 0 2 = Some ([CR, LF], 2, None) \<and>
   header_fields (basic_parser_init\<lparr>buffer := Some [CR, LF], state := state.fields\<rparr>) 0 2 =
     Some (basic_parser_init\<lparr>buffer := Some [CR, LF], state := body, parsed := 2\<rparr>, None) \<and>
   parse_fields (''A:b'' @ [CR, LF, CR] @ ''x'') 5 8 =
     Some (''A:b'' @ [CR, LF, CR] @ ''x'', 5, Some bad_line_ending)"
  using
    parse_fields_line_begins_with_CR
      [where first = 0 and last' = 2 and buf = "[CR, LF]" and c = LF
         and p = "basic_parser_init\<lparr>buffer := Some [CR, LF], state := state.fields\<rparr>"]
    parse_fields_line_begins_with_CR
      [where first = 5 and last' = 8 and buf = "''A:b'' @ [CR, LF, CR] @ ''x''" and c = "CHR ''x''"
         and p = basic_parser_init]
  by (simp add: rd_def basic_parser_init_def)

text \<open>
  The operations other than \<open>parse_header\<close> keep the cursor invariant: \<open>prepare\<close> only
  grows the capacity, \<open>commit(n)\<close> returns only when \<open>1 \<le> n \<le> capacity - committed\<close>, and
  the body and chunk operations change no cursor.
\<close>

lemma cursor_inv_prepare:
  "cursor_inv p \<Longrightarrow> buffer_inv p \<Longrightarrow> prepare p = Some (p', region) \<Longrightarrow>
     cursor_inv p' \<and> buffer_inv p'"
  by (auto simp: prepare_def cursor_inv_def buffer_inv_def new_chars_def size_add_def
      split: option.splits if_splits)

lemma commit_returns:
  "cursor_inv p \<Longrightarrow> buffer_inv p \<Longrightarrow> 1 \<le> n \<Longrightarrow> n \<le> capacity p - committed p \<Longrightarrow>
     commit n p = Some (p\<lparr>committed := committed p + n\<rparr>)"
  by (auto simp: commit_def cursor_inv_def buffer_inv_def size_sub_def size_add_def)

lemma cursor_inv_commit:
  "cursor_inv p \<Longrightarrow> buffer_inv p \<Longrightarrow> commit n p = Some p' \<Longrightarrow>
     cursor_inv p' \<and> buffer_inv p'"
  by (auto simp: commit_def cursor_inv_def buffer_inv_def size_sub_def size_add_def
      split: if_splits option.splits)

lemma cursor_inv_body_and_chunk:
  "cursor_inv p \<Longrightarrow>
     cursor_inv (parse_body p) \<and> cursor_inv (parse_body_part p) \<and>
     cursor_inv (parse_chunk_ext p) \<and> cursor_inv (parse_chunk_part p) \<and>
     cursor_inv (parse_chunk_trailer p) \<and> cursor_inv (commit_eof p) \<and> cursor_inv (reset p)"
  by (auto simp: cursor_inv_def parse_body_def parse_body_part_def parse_chunk_ext_def
      parse_chunk_part_def parse_chunk_trailer_def commit_eof_def reset_def split: state.splits)

lemma received_parser_reached:
  "(prepare basic_parser_init \<bind> (\<lambda>(p, region). store_prepared received p) \<bind> commit 24) =
     Some received_parser"
proof -
  let ?p1 = "basic_parser_init\<lparr>buffer := Some (new_chars 4096), capacity := 4096\<rparr>"
  let ?p2 = "basic_parser_init\<lparr>buffer := Some (received @ new_chars 4069), capacity := 4096\<rparr>"
  have s1: "prepare basic_parser_init = Some (?p1, 0, 4096)"
    by (simp add: prepare_def basic_parser_init_def size_sub_def)
  have s2: "store_prepared received ?p1 = Some ?p2"
    by (simp add: store_prepared_def basic_parser_init_def new_chars_def received_def)
  have s3: "commit 24 ?p2 = Some received_parser"
    by (simp add: commit_def basic_parser_init_def size_sub_def size_add_def received_parser_def)
  show ?thesis
    by (simp only: s1 s2 s3 bind.simps prod.case)
qed

lemma received_parser_header:
  "parse_header request_start_line received_parser =
     Some (received_parser
             \<lparr>buffer := Some (''GET / HTTP/1.1'' @ [CR, LF] @ ''X: a   b'' @ [CR, LF] @ ''Y'' @
                               new_chars 4069),
              parsed := 26, state := state.fields, version := Some 1\<rparr>,
           Some need_more)"
  by (simp add: header_defs received_parser_def basic_parser_init_def received_def nth_append
        list_update_append)

lemma received_parser_fields:
  "header_fields (received_parser\<lparr>parsed := 16, state := state.fields, version := Some 1\<rparr>) 16 24 =
     Some (received_parser
             \<lparr>buffer := Some (''GET / HTTP/1.1'' @ [CR, LF] @ ''X: a   b'' @ [CR, LF] @ ''Y'' @
                               new_chars 4069),
              parsed := 26, state := state.fields, version := Some 1\<rparr>,
           Some need_more)"
  by (simp add: header_defs received_parser_def basic_parser_init_def received_def nth_append
        list_update_append)

text \<open>
  C8 fails on the code at \<open>parse_header\<close>. A caller takes the region of \<open>prepare\<close>, stores
  the 27 bytes of \<open>received\<close> in it and commits the first 24, which keeps the
  invariant. \<open>parse_header\<close> then rewrites the obs-fold, steps three bytes on and so
  beyond the reduced \<open>end\<close>, reads the uncommitted bytes as the end of the line, and
  leaves \<open>parsed = 26\<close> above \<open>committed = 24\<close>; so does the field block alone, entered
  after the start line.
\<close>

theorem parse_header_breaks_cursor_invariant:
  "(prepare basic_parser_init \<bind> (\<lambda>(p, region). store_prepared received p) \<bind> commit 24) =
     Some received_parser \<and>
   cursor_inv received_parser \<and>
   map_option (\<lambda>(p, ec). (parsed p, committed p, cursor_inv p, ec))
     (parse_header request_start_line received_parser) =
     Some (26, 24, False, Some need_more) \<and>
   map_option (\<lambda>(p, ec). (parsed p, committed p, cursor_inv p, ec))
     (header_fields
        (received_parser\<lparr>parsed := 16, state := state.fields, version := Some 1\<rparr>) 16 24) =
     Some (26, 24, False, Some need_more)"
  unfolding received_parser_reached received_parser_header received_parser_fields
  by (simp add: cursor_inv_def received_parser_def basic_parser_init_def)

text \<open>
  C9: \<open>is_valid\<close> returns true exactly when \<open>consume\<close>, applied to the whole string,
  returns its end, for an element and for a list; and \<open>consume\<close> of an element returns
  the position that \<open>parse\<close> returned when \<open>parse\<close> reports \<open>end\<close>, and otherwise \<open>start\<close>
  (the position it asserts \<open>parse\<close> to have returned).
\<close>

theorem bnf_consume_is_valid:
  "(is_valid_element e s = Some True \<longleftrightarrow> consume_element e s 0 (length s) = Some (length s)) \<and>
   (is_valid_list bgn inc s = Some True \<longleftrightarrow>
      consume_list bgn inc s 0 (length s) = Some (length s)) \<and>
   consume_element e s start end' =
     (case e s start end' of
        (it, ec) \<Rightarrow>
          if ec = Some error_end then Some it
          else if it = start then Some start
          else None)"
  by (auto simp: is_valid_element_def is_valid_list_def consume_element_def ec_failed_def Let_def
      split: option.splits prod.splits)

text \<open>
  C10: \<open>parse_header\<close> called with nothing committed returns \<open>need_more\<close> at once, whatever
  the buffer and the start-line parser are, and leaves every member of the parser,
  the state and the cursors included, as it was.
\<close>

theorem parse_header_nothing_committed:
  "committed p = 0 \<Longrightarrow> parse_header psl p = Some (p, Some need_more)"
  by (simp add: parse_header_def)

theorem parse_header_nothing_committed_witness:
  "committed basic_parser_init = 0 \<and>
   parse_header request_start_line basic_parser_init = Some (basic_parser_init, Some need_more)"
  using parse_header_nothing_committed [of basic_parser_init request_start_line]
  by (simp add: basic_parser_init_def)

end
